theory Spec2Isabelle
  imports Complex_Main "HOL-Library.AList" "HOL-Library.Sublist"
begin

section \<open>JSON values and reference paths\<close>

text \<open>
  The workflow of the risk-evaluation pipeline is the Amazon States Language document
  \<^verbatim>\<open>server/stepfunctions/loanEvaluator-sf-riskEvaluation.json\<close>. Its states pass one
  JSON value from state to state. Objects are association lists (the first binding of a
  key is the one that counts); numbers are rationals.
\<close>

datatype json =
    JNull
  | JBool bool
  | JNum rat
  | JStr string
  | JArr "json list"
  | JObj "(string \<times> json) list"

text \<open>
  A reference path \<^verbatim>\<open>$.a.b\<close> is the list of its field names, \<^verbatim>\<open>$\<close> the empty list.
  Reading a path that is not there gives \<open>None\<close>; the interpreter then fails the
  execution with \<^verbatim>\<open>States.Runtime\<close>, which no Retry and no Catch handles.
\<close>

type_synonym path = "string list"

fun get_path :: "path \<Rightarrow> json \<Rightarrow> json option" where
  "get_path [] j = Some j"
| "get_path (k # ks) (JObj kvs) =
     (case map_of kvs k of None \<Rightarrow> None | Some c \<Rightarrow> get_path ks c)"
| "get_path (k # ks) _ = None"

text \<open>
  Writing at a path (ResultPath) replaces the value at the path inside the state's input
  and creates the objects on the way that are missing. It cannot descend into a value that
  is not an object.
\<close>

fun put_path :: "path \<Rightarrow> json \<Rightarrow> json \<Rightarrow> json option" where
  "put_path [] v j = Some v"
| "put_path (k # ks) v (JObj kvs) =
     (case put_path ks v (case map_of kvs k of None \<Rightarrow> JObj [] | Some c \<Rightarrow> c) of
        None \<Rightarrow> None
      | Some c' \<Rightarrow> Some (JObj (AList.update k c' kvs)))"
| "put_path (k # ks) v _ = None"

section \<open>Task states: Retry and Catch\<close>

datatype jitter = NONE | FULL

record retrier =
  ErrorEquals :: "string list"
  IntervalSeconds :: nat
  MaxAttempts :: nat
  BackoffRate :: rat
  JitterStrategy :: jitter

record catcher =
  CatchErrorEquals :: "string list"
  CatchResultPath :: path

record task =
  Resource :: string
  TimeoutSeconds :: "nat option"
  InputPath :: "path option"
  ResultPath :: "path option"
  Retry :: "retrier list"
  Catch :: "catcher list"

text \<open>
  What one invocation of a task's resource answers: a result, or an error with its name
  and cause. The environment also tells how many seconds the invocation ran.
\<close>

datatype reply = Returned json | Raised string string

type_synonym stage_fn = "nat \<Rightarrow> json \<Rightarrow> nat \<times> reply"

text \<open>
  An error name matches a list of \<^verbatim>\<open>ErrorEquals\<close> when the list holds the name, holds
  the wildcard \<^verbatim>\<open>States.ALL\<close>, or holds \<^verbatim>\<open>States.TaskFailed\<close> and the error is not a timeout.
  The two errors the interpreter keeps to itself and lets no wildcard match are not among
  the answers of an invocation here: \<^verbatim>\<open>States.Runtime\<close> is the failure of a path that
  cannot be read (the \<open>Abort\<close> of \<open>exec_task\<close> below), and
  \<^verbatim>\<open>States.DataLimitExceeded\<close> depends on the size of a payload, which is not modelled.
\<close>

definition error_matches :: "string list \<Rightarrow> string \<Rightarrow> bool" where
  "error_matches names e \<longleftrightarrow>
     e \<in> set names \<or> ''States.ALL'' \<in> set names
     \<or> (''States.TaskFailed'' \<in> set names \<and> e \<noteq> ''States.Timeout'')"

text \<open>The first retrier whose \<^verbatim>\<open>ErrorEquals\<close> matches, by position.\<close>

fun find_retrier :: "retrier list \<Rightarrow> string \<Rightarrow> nat option" where
  "find_retrier [] e = None"
| "find_retrier (r # rs) e =
     (if error_matches (ErrorEquals r) e then Some 0
      else map_option Suc (find_retrier rs e))"

fun find_catcher :: "catcher list \<Rightarrow> string \<Rightarrow> catcher option" where
  "find_catcher [] e = None"
| "find_catcher (c # cs) e =
     (if error_matches (CatchErrorEquals c) e then Some c else find_catcher cs e)"

text \<open>
  An invocation that runs longer than \<^verbatim>\<open>TimeoutSeconds\<close> fails with
  \<^verbatim>\<open>States.Timeout\<close>, whatever it would have answered.
\<close>

definition invoke :: "task \<Rightarrow> nat \<times> reply \<Rightarrow> reply" where
  "invoke t a =
     (case TimeoutSeconds t of
        None \<Rightarrow> snd a
      | Some s \<Rightarrow> if s < fst a then Raised ''States.Timeout'' ''task timed out'' else snd a)"

text \<open>
  The delay before the \<open>k\<close>-th retry of a retrier (\<open>k \<ge> 1\<close>):
  \<^verbatim>\<open>IntervalSeconds * BackoffRate^(k-1)\<close>; with \<^verbatim>\<open>JitterStrategy: FULL\<close> a random
  fraction \<open>u\<close> of it (\<open>u\<close> is the draw, between 0 and 1).
\<close>

definition retry_delay :: "retrier \<Rightarrow> nat \<Rightarrow> rat \<Rightarrow> rat" where
  "retry_delay r k u =
     (let computed = of_nat (IntervalSeconds r) * BackoffRate r ^ (k - 1)
      in case JitterStrategy r of NONE \<Rightarrow> computed | FULL \<Rightarrow> u * computed)"

text \<open>What an execution does, in order.\<close>

datatype event =
    Entered string
  | Invoked string nat json
  | Slept string rat
  | Completed string
  | Caught string string

text \<open>
  The retry loop of one task state, from its \<open>n\<close>-th invocation on, with the events it
  makes. \<open>left\<close> holds, for each retrier, the retries it still has (at first its
  \<^verbatim>\<open>MaxAttempts\<close>). A matching retrier with retries left sleeps and invokes again;
  otherwise the error leaves the loop.
\<close>

function attempts ::
  "task \<Rightarrow> string \<Rightarrow> stage_fn \<Rightarrow> (nat \<Rightarrow> rat) \<Rightarrow> json \<Rightarrow> nat list \<Rightarrow> nat \<Rightarrow> reply \<times> event list" where
  "attempts t s fn jit inp left n =
     (case invoke t (fn n inp) of
        Returned v \<Rightarrow> (Returned v, [Invoked s n inp])
      | Raised e c \<Rightarrow>
          (case find_retrier (Retry t) e of
             None \<Rightarrow> (Raised e c, [Invoked s n inp])
           | Some i \<Rightarrow>
               if i < length left \<and> 0 < left ! i then
                 (case attempts t s fn jit inp (left[i := left ! i - 1]) (Suc n) of
                    (r, evs) \<Rightarrow>
                      (r, Invoked s n inp
                          # Slept s (retry_delay (Retry t ! i)
                                       (MaxAttempts (Retry t ! i) - left ! i + 1) (jit n))
                          # evs))
               else (Raised e c, [Invoked s n inp])))"
  by pat_completeness auto
termination
proof (relation "measure (\<lambda>(t, s, fn, jit, inp, left, n). sum_list left)", goal_cases)
  case 1
  show ?case by simp
next
  case (2 t s fn jit inp left n e c i)
  then have "left ! i \<le> sum_list left"
    by (simp add: member_le_sum_list)
  with 2 show ?case
    by (simp add: sum_list_update)
qed

declare attempts.simps [simp del]

text \<open>
  One task state: select the input (InputPath, then Parameters), run the retry loop, and
  on success write the result at ResultPath and go on to Next; on an error that left the
  loop, let the first matching catcher write \<^verbatim>\<open>{"Error": ..., "Cause": ...}\<close> at its
  ResultPath in the state's input and go on to the catcher's Next. An error no catcher
  matches, and a path that cannot be read or written, fail the execution.
\<close>

datatype transition = Next_state json | Catch_state json | Abort string string

definition error_output :: "string \<Rightarrow> string \<Rightarrow> json" where
  "error_output e c = JObj [(''Error'', JStr e), (''Cause'', JStr c)]"

definition exec_task ::
  "task \<Rightarrow> string \<Rightarrow> stage_fn \<Rightarrow> (nat \<Rightarrow> rat) \<Rightarrow> (json \<Rightarrow> json option) \<Rightarrow> json
   \<Rightarrow> transition \<times> event list" where
  "exec_task t s fn jit params st =
     (case (case InputPath t of None \<Rightarrow> Some st | Some p \<Rightarrow> get_path p st) of
        None \<Rightarrow> (Abort ''States.Runtime'' ''invalid InputPath'', [Entered s])
      | Some sel \<Rightarrow>
          (case params sel of
             None \<Rightarrow> (Abort ''States.Runtime'' ''invalid path in Parameters'', [Entered s])
           | Some inp \<Rightarrow>
               (case attempts t s fn jit inp (map MaxAttempts (Retry t)) 0 of
                  (r, evs) \<Rightarrow>
                    (case (case r of
                             Returned v \<Rightarrow>
                               (case put_path (case ResultPath t of None \<Rightarrow> [] | Some p \<Rightarrow> p) v st of
                                  None \<Rightarrow> Inl (''States.ResultPathMatchFailure'', ''invalid ResultPath'')
                                | Some st' \<Rightarrow> Inr st')
                           | Raised e c \<Rightarrow> Inl (e, c)) of
                       Inr st' \<Rightarrow> (Next_state st', Entered s # evs @ [Completed s])
                     | Inl (e, c) \<Rightarrow>
                         (case find_catcher (Catch t) e of
                            None \<Rightarrow> (Abort e c, Entered s # evs)
                          | Some h \<Rightarrow>
                              (case put_path (CatchResultPath h) (error_output e c) st of
                                 None \<Rightarrow> (Abort ''States.ResultPathMatchFailure'' ''invalid ResultPath'', Entered s # evs)
                               | Some st' \<Rightarrow> (Catch_state st', Entered s # evs @ [Caught s e])))))))"

section \<open>The state machine\<close>

text \<open>The four Lambda error names every stage retries.\<close>

definition lambda_errors :: "string list" where
  "lambda_errors =
     [''Lambda.ServiceException'', ''Lambda.AWSLambdaException'',
      ''Lambda.SdkClientException'', ''Lambda.TooManyRequestsException'']"

definition catch_all :: catcher where
  "catch_all = \<lparr>CatchErrorEquals = [''States.ALL''], CatchResultPath = [''errorInfo'']\<rparr>"

definition CleanAndFeatureEngineer_task :: task where
  "CleanAndFeatureEngineer_task =
     \<lparr>Resource = ''arn:aws:lambda:eu-west-1:290981215299:function:loadEvaluator-fn-CleanAndTransform'',
      TimeoutSeconds = Some 120,
      InputPath = None,
      ResultPath = None,
      Retry = [\<lparr>ErrorEquals = lambda_errors @ [''DataValidationError''],
                IntervalSeconds = 3, MaxAttempts = 2, BackoffRate = 3 / 2,
                JitterStrategy = NONE\<rparr>],
      Catch = [catch_all]\<rparr>"

definition CallScoringService_task :: task where
  "CallScoringService_task =
     \<lparr>Resource = ''arn:aws:lambda:eu-west-1:290981215299:function:loanEvaluator-fn-CallScoringService'',
      TimeoutSeconds = Some 60,
      InputPath = Some [''features_for_scoring''],
      ResultPath = Some [''risk_score''],
      Retry = [\<lparr>ErrorEquals = lambda_errors @ [''ScoringServiceCallFailed''],
                IntervalSeconds = 5, MaxAttempts = 3, BackoffRate = 2,
                JitterStrategy = FULL\<rparr>],
      Catch = [catch_all]\<rparr>"

definition PersistScoredApplication_task :: task where
  "PersistScoredApplication_task =
     \<lparr>Resource = ''arn:aws:lambda:eu-west-1:290981215299:function:loanEvaluator-fn-PersistScoredApplication'',
      TimeoutSeconds = Some 90,
      InputPath = None,
      ResultPath = None,
      Retry = [\<lparr>ErrorEquals = lambda_errors @ [''DatabaseConnectionError'', ''DatabaseWriteError''],
                IntervalSeconds = 5, MaxAttempts = 3, BackoffRate = 2,
                JitterStrategy = FULL\<rparr>],
      Catch = [catch_all]\<rparr>"

definition SendToDLQ_task :: task where
  "SendToDLQ_task =
     \<lparr>Resource = ''arn:aws:states:::sqs:sendMessage'',
      TimeoutSeconds = None,
      InputPath = None,
      ResultPath = Some [''sqsSendMessageResult''],
      Retry = [],
      Catch = [\<lparr>CatchErrorEquals = [''States.ALL''],
                CatchResultPath = [''sendToDlqErrorDetails'']\<rparr>]\<rparr>"

text \<open>
  The Parameters of SendToDLQ: the message sent to the failure queue. \<open>x\<close> is the
  execution's input (\<^verbatim>\<open>$$.Execution.Input\<close>); \<^verbatim>\<open>failedStage\<close> is the constant the
  document writes.
\<close>

definition dlq_message :: "json \<Rightarrow> json \<Rightarrow> json" where
  "dlq_message x info =
     JObj [(''QueueUrl'', JStr ''https://sqs.eu-west-1.amazonaws.com/290981215299/application-failure-dlq''),
           (''MessageBody'',
              JObj [(''failedStage'', JStr ''CleanAndFeatureEngineer''),
                    (''errorInfo'', info),
                    (''input'', x)])]"

definition SendToDLQ_Parameters :: "json \<Rightarrow> json \<Rightarrow> json option" where
  "SendToDLQ_Parameters x sel =
     (case get_path [''errorInfo''] sel of
        None \<Rightarrow> None
      | Some info \<Rightarrow> Some (dlq_message x info))"

text \<open>
  The three Lambda functions and the queue are not part of the sources; each is a
  parameter, a function from the number of the attempt and the input to the seconds it
  ran and its answer, any JSON value or any error. \<open>jitter\<close> gives the random draw of a
  state's retry, a fraction of the computed delay.
\<close>

record env =
  clean :: stage_fn
  score :: stage_fn
  persist :: stage_fn
  send_message :: stage_fn
  jitter :: "string \<Rightarrow> nat \<Rightarrow> rat"

text \<open>How an execution ends: with its output, or failed with an error and a cause.\<close>

datatype outcome = Succeeded json | Failed string string

text \<open>
  Each state of the document is a function from the execution's input and the state's
  input to the way the execution ends from there and the events until then; Next and the
  catcher's Next are the calls.
\<close>

definition after :: "event list \<Rightarrow> outcome \<times> event list \<Rightarrow> outcome \<times> event list" where
  "after evs r = (fst r, evs @ snd r)"

definition ProcessingFailed :: "json \<Rightarrow> outcome \<times> event list" where
  "ProcessingFailed st =
     (case get_path [''errorInfo'', ''Cause''] st of
        Some (JStr c) \<Rightarrow> (Failed ''ApplicationProcessingFailedError'' c, [])
      | _ \<Rightarrow> (Failed ''States.Runtime'' ''invalid CausePath'', []))"

definition SendToDLQ :: "env \<Rightarrow> json \<Rightarrow> json \<Rightarrow> outcome \<times> event list" where
  "SendToDLQ E x st =
     (case exec_task SendToDLQ_task ''SendToDLQ'' (send_message E) (jitter E ''SendToDLQ'')
             (SendToDLQ_Parameters x) st of
        (Next_state st', evs) \<Rightarrow> after evs (ProcessingFailed st')
      | (Catch_state st', evs) \<Rightarrow> after evs (ProcessingFailed st')
      | (Abort e c, evs) \<Rightarrow> (Failed e c, evs))"

definition PersistScoredApplication :: "env \<Rightarrow> json \<Rightarrow> json \<Rightarrow> outcome \<times> event list" where
  "PersistScoredApplication E x st =
     (case exec_task PersistScoredApplication_task ''PersistScoredApplication'' (persist E)
             (jitter E ''PersistScoredApplication'') Some st of
        (Next_state out, evs) \<Rightarrow> (Succeeded out, evs)
      | (Catch_state st', evs) \<Rightarrow> after evs (SendToDLQ E x st')
      | (Abort e c, evs) \<Rightarrow> (Failed e c, evs))"

definition CallScoringService :: "env \<Rightarrow> json \<Rightarrow> json \<Rightarrow> outcome \<times> event list" where
  "CallScoringService E x st =
     (case exec_task CallScoringService_task ''CallScoringService'' (score E)
             (jitter E ''CallScoringService'') Some st of
        (Next_state st', evs) \<Rightarrow> after evs (PersistScoredApplication E x st')
      | (Catch_state st', evs) \<Rightarrow> after evs (SendToDLQ E x st')
      | (Abort e c, evs) \<Rightarrow> (Failed e c, evs))"

definition CleanAndFeatureEngineer :: "env \<Rightarrow> json \<Rightarrow> json \<Rightarrow> outcome \<times> event list" where
  "CleanAndFeatureEngineer E x st =
     (case exec_task CleanAndFeatureEngineer_task ''CleanAndFeatureEngineer'' (clean E)
             (jitter E ''CleanAndFeatureEngineer'') Some st of
        (Next_state st', evs) \<Rightarrow> after evs (CallScoringService E x st')
      | (Catch_state st', evs) \<Rightarrow> after evs (SendToDLQ E x st')
      | (Abort e c, evs) \<Rightarrow> (Failed e c, evs))"

text \<open>
  An execution starts at \<^verbatim>\<open>StartAt: CleanAndFeatureEngineer\<close> with its input, a JSON
  object, as the first state's input.
\<close>

definition run :: "env \<Rightarrow> (string \<times> json) list \<Rightarrow> outcome \<times> event list" where
  "run E input = CleanAndFeatureEngineer E (JObj input) (JObj input)"

section \<open>Reading the events of an execution\<close>

text \<open>
  The events of one state's retry loop: invocations of the state's resource on one input,
  and the sleeps between them.
\<close>

fun loop_event :: "string \<Rightarrow> json \<Rightarrow> event \<Rightarrow> bool" where
  "loop_event s inp (Invoked s' n i) = (s' = s \<and> i = inp)"
| "loop_event s inp (Slept s' d) = (s' = s)"
| "loop_event s inp _ = False"

fun is_invocation :: "string \<Rightarrow> event \<Rightarrow> bool" where
  "is_invocation s (Invoked s' n i) = (s' = s)"
| "is_invocation s _ = False"

text \<open>How many times the resource of state \<open>s\<close> was invoked.\<close>

definition invocations :: "string \<Rightarrow> event list \<Rightarrow> nat" where
  "invocations s tr = length (filter (is_invocation s) tr)"

text \<open>The events before the first invocation of state \<open>s\<close>.\<close>

definition before_invocation :: "string \<Rightarrow> event list \<Rightarrow> event list" where
  "before_invocation s tr = takeWhile (\<lambda>e. \<not> is_invocation s e) tr"

text \<open>
  The stages an execution ran, in order: the task states it entered, the dead-letter send
  apart.
\<close>

fun entered_stage :: "event \<Rightarrow> string list" where
  "entered_stage (Entered s) = (if s = ''SendToDLQ'' then [] else [s])"
| "entered_stage _ = []"

definition stages_executed :: "event list \<Rightarrow> string list" where
  "stages_executed tr = concat (map entered_stage tr)"

text \<open>
  The events of the dead-letter path after a stage's error \<open>e\<close> with cause \<open>c\<close> was
  caught: one send, which the queue accepts or refuses.
\<close>

definition dlq_events :: "env \<Rightarrow> json \<Rightarrow> string \<Rightarrow> string \<Rightarrow> event list" where
  "dlq_events E x e c =
     [Entered ''SendToDLQ'',
      Invoked ''SendToDLQ'' 0 (dlq_message x (error_output e c)),
      (case invoke SendToDLQ_task (send_message E 0 (dlq_message x (error_output e c))) of
         Returned v \<Rightarrow> Completed ''SendToDLQ''
       | Raised e' c' \<Rightarrow> Caught ''SendToDLQ'' e')]"

text \<open>The messages an execution handed to the failure queue.\<close>

fun sent_message :: "event \<Rightarrow> json list" where
  "sent_message (Invoked s n m) = (if s = ''SendToDLQ'' then [m] else [])"
| "sent_message _ = []"

definition dead_letters :: "event list \<Rightarrow> json list" where
  "dead_letters tr = concat (map sent_message tr)"

text \<open>The retry loop of a state as the state starts it: every retrier with all its retries.\<close>

definition run_loop :: "task \<Rightarrow> string \<Rightarrow> stage_fn \<Rightarrow> env \<Rightarrow> json \<Rightarrow> reply \<times> event list" where
  "run_loop t s fn E inp = attempts t s fn (jitter E s) inp (map MaxAttempts (Retry t)) 0"

text \<open>
  The state the scoring stage hands on: the object the cleaning stage handed it, with the
  score written in.
\<close>

definition scored :: "(string \<times> json) list \<Rightarrow> json \<Rightarrow> json" where
  "scored kvs v = JObj (AList.update ''risk_score'' v kvs)"

section \<open>The table of scored applications\<close>

text \<open>
  \<^verbatim>\<open>server/database/schema.sql\<close>: the table \<^verbatim>\<open>scored_loan_applications\<close>. Every column is
  NOT NULL, so every field is there; \<^verbatim>\<open>application_id\<close> is the PRIMARY KEY;
  \<^verbatim>\<open>risk_level\<close> is GENERATED ALWAYS from \<^verbatim>\<open>risk_score\<close>, so it is a function of the row.
  The column \<^verbatim>\<open>term\<close> is the field \<open>loan_term\<close>.
\<close>

record engineered_features =
  message_id :: string
  loan_amnt :: int
  loan_term :: int
  int_rate :: rat
  installment :: rat
  emp_length :: int
  annual_inc :: rat
  dti :: rat
  addr_state :: string
  credit_to_income_ratio :: rat
  is_self_employed :: bool
  loan_month :: int
  is_long_term :: bool

record scored_loan_application = engineered_features +
  application_id :: string
  risk_score :: rat
  processing_timestamp :: int

definition risk_level :: "scored_loan_application \<Rightarrow> string" where
  "risk_level r =
     (if risk_score r \<ge> 75 / 100 then ''HIGH''
      else if risk_score r \<ge> 35 / 100 then ''MEDIUM''
      else ''LOW'')"

type_synonym scored_loan_applications = "scored_loan_application list"

definition rows_of :: "string \<Rightarrow> scored_loan_applications \<Rightarrow> scored_loan_application list" where
  "rows_of a tbl = filter (\<lambda>r. application_id r = a) tbl"

text \<open>The primary key: no two rows of the table have one \<^verbatim>\<open>application_id\<close>.\<close>

definition primary_key :: "scored_loan_applications \<Rightarrow> bool" where
  "primary_key tbl \<longleftrightarrow> distinct (map application_id tbl)"

datatype db_error = UniqueViolation

text \<open>A plain INSERT: the primary key refuses a row whose \<^verbatim>\<open>application_id\<close> is taken.\<close>

definition insert_row ::
  "scored_loan_application \<Rightarrow> scored_loan_applications \<Rightarrow> db_error + scored_loan_applications" where
  "insert_row r tbl =
     (if rows_of (application_id r) tbl = [] then Inr (tbl @ [r]) else Inl UniqueViolation)"

text \<open>
  Modelled from the spec: the persisting Lambda is not part of the sources. The spec has
  \<^verbatim>\<open>persist(ApplicationId, EngineeredFeatures, RiskScore, timestamp)\<close>, keyed by the
  ApplicationId, "an upsert, not an insert-only operation": the row is inserted, and where
  the key is taken the row of that key is replaced.
\<close>

definition make_row ::
  "string \<Rightarrow> engineered_features \<Rightarrow> rat \<Rightarrow> int \<Rightarrow> scored_loan_application" where
  "make_row a f s ts =
     \<lparr>message_id = message_id f, loan_amnt = loan_amnt f, loan_term = loan_term f,
      int_rate = int_rate f, installment = installment f, emp_length = emp_length f,
      annual_inc = annual_inc f, dti = dti f, addr_state = addr_state f,
      credit_to_income_ratio = credit_to_income_ratio f,
      is_self_employed = is_self_employed f, loan_month = loan_month f,
      is_long_term = is_long_term f,
      application_id = a, risk_score = s, processing_timestamp = ts\<rparr>"

definition persist_row ::
  "string \<Rightarrow> engineered_features \<Rightarrow> rat \<Rightarrow> int \<Rightarrow> scored_loan_applications
   \<Rightarrow> scored_loan_applications" where
  "persist_row a f s ts tbl =
     (case insert_row (make_row a f s ts) tbl of
        Inr tbl' \<Rightarrow> tbl'
      | Inl UniqueViolation \<Rightarrow>
          map (\<lambda>r. if application_id r = a then make_row a f s ts else r) tbl)"

section \<open>The idempotency ledger and the dispatcher\<close>

text \<open>
  Modelled from the spec: the dispatcher Lambda and its ledger table are not part of the
  sources. The spec (4.1): \<^verbatim>\<open>beginOrReject(naturalKey) -> {Admitted(applicationId) |
  AlreadyInProgress | AlreadyCompleted}\<close>, one atomic conditional write;
  \<^verbatim>\<open>markCompleted(applicationId)\<close>; an entry is \<^verbatim>\<open>{applicationId, state, expiresAt}\<close> and
  expires after the TTL. An ApplicationId is minted when a key is admitted; ids are
  numbered in the order they are minted.
\<close>

datatype ledger_state = IN_PROGRESS | COMPLETED

record IdempotencyRecord =
  applicationId :: nat
  state :: ledger_state
  expiresAt :: nat

record ledger =
  entries :: "string \<Rightarrow> IdempotencyRecord option"
  minted :: nat

datatype admission = Admitted nat | AlreadyInProgress | AlreadyCompleted

definition admit :: "nat \<Rightarrow> nat \<Rightarrow> string \<Rightarrow> ledger \<Rightarrow> admission \<times> ledger" where
  "admit ttl now k L =
     (Admitted (minted L),
      \<lparr>entries = (entries L)(k \<mapsto> \<lparr>applicationId = minted L, state = IN_PROGRESS,
                                    expiresAt = now + ttl\<rparr>),
       minted = Suc (minted L)\<rparr>)"

definition beginOrReject :: "nat \<Rightarrow> nat \<Rightarrow> string \<Rightarrow> ledger \<Rightarrow> admission \<times> ledger" where
  "beginOrReject ttl now k L =
     (case entries L k of
        None \<Rightarrow> admit ttl now k L
      | Some r \<Rightarrow>
          if expiresAt r \<le> now then admit ttl now k L
          else if state r = COMPLETED then (AlreadyCompleted, L)
          else (AlreadyInProgress, L))"

definition markCompleted :: "nat \<Rightarrow> ledger \<Rightarrow> ledger" where
  "markCompleted a L =
     L\<lparr>entries := (\<lambda>k. map_option (\<lambda>r. if applicationId r = a then r\<lparr>state := COMPLETED\<rparr> else r)
                          (entries L k))\<rparr>"

text \<open>
  Modelled from the spec (4.4): for each message the dispatcher computes the natural key
  from the content and asks the ledger; on \<^verbatim>\<open>Admitted\<close> it starts one execution of the
  workflow with the new ApplicationId, otherwise it starts nothing. When an execution has
  reached its terminal state and succeeded, the ledger entry is marked completed. What
  happens to the dispatcher, in order, is a list of these two events; a delivery carries
  its time.
\<close>

record InboundMessage =
  deliveryId :: string
  payload :: "(string \<times> json) list"

datatype dispatch_event = Delivered nat InboundMessage | Terminated nat

record WorkflowExecution =
  executionId :: nat
  naturalKey :: string
  result :: "outcome \<times> event list"

fun succeeded :: "outcome \<Rightarrow> bool" where
  "succeeded (Succeeded out) = True"
| "succeeded (Failed e c) = False"

record dispatcher =
  Ledger :: ledger
  started :: "WorkflowExecution list"

definition execution_input :: "nat \<Rightarrow> InboundMessage \<Rightarrow> (string \<times> json) list" where
  "execution_input a m = (''application_id'', JNum (of_nat a)) # payload m"

fun dispatch ::
  "nat \<Rightarrow> ((string \<times> json) list \<Rightarrow> string) \<Rightarrow> (nat \<Rightarrow> env) \<Rightarrow> dispatcher \<Rightarrow> dispatch_event
   \<Rightarrow> dispatcher" where
  "dispatch ttl key W D (Delivered now m) =
     (case beginOrReject ttl now (key (payload m)) (Ledger D) of
        (Admitted a, L') \<Rightarrow>
          \<lparr>Ledger = L',
           started = started D @ [\<lparr>executionId = a, naturalKey = key (payload m),
                                   result = run (W a) (execution_input a m)\<rparr>]\<rparr>
      | (_, L') \<Rightarrow> D\<lparr>Ledger := L'\<rparr>)"
| "dispatch ttl key W D (Terminated a) =
     (if \<exists>w \<in> set (started D). executionId w = a \<and> succeeded (fst (result w))
      then D\<lparr>Ledger := markCompleted a (Ledger D)\<rparr>
      else D)"

definition dispatcher_start :: dispatcher where
  "dispatcher_start = \<lparr>Ledger = \<lparr>entries = (\<lambda>k. None), minted = 0\<rparr>, started = []\<rparr>"

definition dispatch_all ::
  "nat \<Rightarrow> ((string \<times> json) list \<Rightarrow> string) \<Rightarrow> (nat \<Rightarrow> env) \<Rightarrow> dispatch_event list \<Rightarrow> dispatcher" where
  "dispatch_all ttl key W evs = foldl (dispatch ttl key W) dispatcher_start evs"

text \<open>The times at which messages of natural key \<open>k\<close> were delivered, in order.\<close>

fun delivery_time :: "((string \<times> json) list \<Rightarrow> string) \<Rightarrow> string \<Rightarrow> dispatch_event \<Rightarrow> nat list" where
  "delivery_time key k (Delivered now m) = (if key (payload m) = k then [now] else [])"
| "delivery_time key k (Terminated a) = []"

definition deliveries :: "((string \<times> json) list \<Rightarrow> string) \<Rightarrow> string \<Rightarrow> dispatch_event list \<Rightarrow> nat list" where
  "deliveries key k evs = concat (map (delivery_time key k) evs)"

definition executions_of :: "string \<Rightarrow> dispatcher \<Rightarrow> WorkflowExecution list" where
  "executions_of k D = filter (\<lambda>w. naturalKey w = k) (started D)"

text \<open>
  What an execution leaves behind: a persisted record when it succeeded, a dead-letter
  record when the queue accepted the send.
\<close>

definition persisted_records :: "outcome \<times> event list \<Rightarrow> nat" where
  "persisted_records r = (case fst r of Succeeded out \<Rightarrow> 1 | Failed e c \<Rightarrow> 0)"

definition dead_letter_records :: "outcome \<times> event list \<Rightarrow> nat" where
  "dead_letter_records r = length (filter (\<lambda>e. e = Completed ''SendToDLQ'') (snd r))"

section \<open>Example executions\<close>

text \<open>
  An application and a few environments: one where every stage answers at once, others
  where one collaborator keeps failing, and one where the cleaning function answers an
  object without \<^verbatim>\<open>features_for_scoring\<close>.
\<close>

definition example_input :: "(string \<times> json) list" where
  "example_input = [(''application_id'', JStr ''a-1''), (''loan_amnt'', JNum 1000)]"

definition env_ok :: env where
  "env_ok =
     \<lparr>clean = (\<lambda>n i. (1, Returned (JObj [(''features_for_scoring'', JObj [(''dti'', JNum (1 / 5))]),
                                         (''application_id'', JStr ''a-1''),
                                         (''raw_key'', JStr ''raw/a-1.json'')]))),
      score = (\<lambda>n i. (1, Returned (JNum (1 / 4)))),
      persist = (\<lambda>n i. (1, Returned (JStr ''stored''))),
      send_message = (\<lambda>n i. (1, Returned (JStr ''sent''))),
      jitter = (\<lambda>s n. 1 / 2)\<rparr>"

definition env_invalid :: env where
  "env_invalid = env_ok\<lparr>clean := (\<lambda>n i. (1, Raised ''DataValidationError'' ''missing field''))\<rparr>"

definition env_no_features :: env where
  "env_no_features =
     env_ok\<lparr>clean := (\<lambda>n i. (1, Returned (JObj [(''application_id'', JStr ''a-1'')])))\<rparr>"

definition env_score_down :: env where
  "env_score_down =
     env_ok\<lparr>score := (\<lambda>n i. (1, Raised ''ScoringServiceCallFailed'' ''service unavailable''))\<rparr>"

definition env_score_broken :: env where
  "env_score_broken = env_ok\<lparr>score := (\<lambda>n i. (1, Raised ''KeyError'' ''no such feature''))\<rparr>"

definition env_queue_down :: env where
  "env_queue_down =
     env_score_down\<lparr>send_message := (\<lambda>n i. (1, Raised ''SQS.SdkClientException'' ''queue unreachable''))\<rparr>"

definition example_key :: "(string \<times> json) list \<Rightarrow> string" where
  "example_key p = (case map_of p ''message_id'' of Some (JStr s) \<Rightarrow> s | _ \<Rightarrow> [])"

definition example_message :: "string \<Rightarrow> InboundMessage" where
  "example_message d =
     \<lparr>deliveryId = d, payload = [(''message_id'', JStr ''A1''), (''loan_amnt'', JNum 1000)]\<rparr>"

definition example_deliveries :: "dispatch_event list" where
  "example_deliveries =
     [Delivered 0 (example_message ''d-1''), Delivered 10 (example_message ''d-2''),
      Terminated 0, Delivered 20 (example_message ''d-3'')]"

definition example_features :: engineered_features where
  "example_features =
     \<lparr>message_id = ''A1'', loan_amnt = 1000, loan_term = 36, int_rate = 1 / 10,
      installment = 32, emp_length = 5, annual_inc = 50000, dti = 1 / 5, addr_state = ''CA'',
      credit_to_income_ratio = 1 / 50, is_self_employed = False, loan_month = 7,
      is_long_term = False\<rparr>"

section \<open>The retry loop\<close>

lemma attempts_cases:
  obtains (returned) v where "invoke t (fn n inp) = Returned v"
      "attempts t s fn jit inp left n = (Returned v, [Invoked s n inp])"
  | (fatal) e c where "invoke t (fn n inp) = Raised e c"
      "find_retrier (Retry t) e = None"
      "attempts t s fn jit inp left n = (Raised e c, [Invoked s n inp])"
  | (exhausted) e c i where "invoke t (fn n inp) = Raised e c"
      "find_retrier (Retry t) e = Some i" "\<not> (i < length left \<and> 0 < left ! i)"
      "attempts t s fn jit inp left n = (Raised e c, [Invoked s n inp])"
  | (retry) e c i where "invoke t (fn n inp) = Raised e c"
      "find_retrier (Retry t) e = Some i" "i < length left" "0 < left ! i"
      "attempts t s fn jit inp left n =
         (fst (attempts t s fn jit inp (left[i := left ! i - 1]) (Suc n)),
          Invoked s n inp
          # Slept s (retry_delay (Retry t ! i) (MaxAttempts (Retry t ! i) - left ! i + 1) (jit n))
          # snd (attempts t s fn jit inp (left[i := left ! i - 1]) (Suc n)))"
proof (cases "invoke t (fn n inp)")
  case (Returned v)
  then show ?thesis
    using returned by (simp add: attempts.simps [of t s fn jit inp left n])
next
  case (Raised e c)
  show ?thesis
  proof (cases "find_retrier (Retry t) e")
    case None
    with Raised show ?thesis
      using fatal by (simp add: attempts.simps [of t s fn jit inp left n])
  next
    case (Some i)
    show ?thesis
    proof (cases "i < length left \<and> 0 < left ! i")
      case True
      with Raised Some show ?thesis
        using retry [of e c i]
        by (simp add: attempts.simps [of t s fn jit inp left n] split: prod.splits)
    next
      case False
      with Raised Some show ?thesis
        using exhausted [of e c i]
        by (auto simp add: attempts.simps [of t s fn jit inp left n])
    qed
  qed
qed

lemma attempts_events:
  "list_all (loop_event s inp) (snd (attempts t s fn jit inp left n))"
proof (induction t s fn jit inp left n rule: attempts.induct)
  case (1 t s fn jit inp left n)
  show ?case
  proof (cases rule: attempts_cases [where t=t and fn=fn and n=n and inp=inp and s=s and jit=jit and left=left])
    case (retry e c i)
    with "1.IH" [of e c i] show ?thesis by simp
  qed simp_all
qed

lemma attempts_invocations_le:
  "invocations s (snd (attempts t s fn jit inp left n)) \<le> sum_list left + 1"
proof (induction t s fn jit inp left n rule: attempts.induct)
  case (1 t s fn jit inp left n)
  show ?case
  proof (cases rule: attempts_cases [where t=t and fn=fn and n=n and inp=inp and s=s and jit=jit and left=left])
    case (retry e c i)
    then have "left ! i \<le> sum_list left"
      by (simp add: member_le_sum_list)
    with retry have "sum_list (left[i := left ! i - 1]) + 1 = sum_list left"
      by (simp add: sum_list_update)
    with "1.IH" [of e c i] retry show ?thesis
      by (simp add: invocations_def)
  qed (simp_all add: invocations_def)
qed

lemma attempts_invocations_pos:
  "0 < invocations s (snd (attempts t s fn jit inp left n))"
  by (cases rule: attempts_cases [where t=t and fn=fn and n=n and inp=inp and s=s and jit=jit and left=left])
     (simp_all add: invocations_def)

lemma attempts_returned:
  "fst (attempts t s fn jit inp left n) = Returned v \<Longrightarrow> \<exists>m. invoke t (fn m inp) = Returned v"
proof (induction t s fn jit inp left n rule: attempts.induct)
  case (1 t s fn jit inp left n)
  show ?case
  proof (cases rule: attempts_cases [where t=t and fn=fn and n=n and inp=inp and s=s and jit=jit and left=left])
    case (returned v')
    with "1.prems" show ?thesis by auto
  next
    case (retry e c i)
    with "1.IH" [of e c i] "1.prems" show ?thesis by simp
  qed (use "1.prems" in simp_all)
qed

section \<open>The states, one step each\<close>

lemma SendToDLQ_eq:
  "map_of kvs ''errorInfo'' = Some (error_output e c) \<Longrightarrow>
   SendToDLQ E x (JObj kvs) =
     (Failed ''ApplicationProcessingFailedError'' c, dlq_events E x e c)"
  by (simp add: SendToDLQ_def exec_task_def SendToDLQ_task_def SendToDLQ_Parameters_def
      attempts.simps after_def ProcessingFailed_def error_matches_def dlq_events_def
      error_output_def update_conv' split: reply.splits)

lemma Persist_eq:
  "PersistScoredApplication E x (JObj kvs) =
     (case run_loop PersistScoredApplication_task ''PersistScoredApplication'' (persist E) E
             (JObj kvs) of
        (Returned out, evs) \<Rightarrow>
          (Succeeded out,
           Entered ''PersistScoredApplication'' # evs @ [Completed ''PersistScoredApplication''])
      | (Raised e c, evs) \<Rightarrow>
          (Failed ''ApplicationProcessingFailedError'' c,
           Entered ''PersistScoredApplication'' # evs @ [Caught ''PersistScoredApplication'' e]
             @ dlq_events E x e c))"
  by (simp add: PersistScoredApplication_def exec_task_def PersistScoredApplication_task_def
      catch_all_def error_matches_def SendToDLQ_eq after_def update_conv' run_loop_def
      split: prod.splits reply.splits)

lemma Score_eq:
  "map_of kvs ''features_for_scoring'' = Some f \<Longrightarrow>
   CallScoringService E x (JObj kvs) =
     (case run_loop CallScoringService_task ''CallScoringService'' (score E) E f of
        (Returned v, evs) \<Rightarrow>
          after (Entered ''CallScoringService'' # evs @ [Completed ''CallScoringService''])
            (PersistScoredApplication E x (scored kvs v))
      | (Raised e c, evs) \<Rightarrow>
          (Failed ''ApplicationProcessingFailedError'' c,
           Entered ''CallScoringService'' # evs @ [Caught ''CallScoringService'' e]
             @ dlq_events E x e c))"
  by (simp add: CallScoringService_def exec_task_def CallScoringService_task_def
      catch_all_def error_matches_def SendToDLQ_eq after_def update_conv'
      run_loop_def scored_def split: prod.splits reply.splits)

lemma Clean_eq:
  "CleanAndFeatureEngineer E x (JObj kvs) =
     (case run_loop CleanAndFeatureEngineer_task ''CleanAndFeatureEngineer'' (clean E) E
             (JObj kvs) of
        (Returned v, evs) \<Rightarrow>
          after (Entered ''CleanAndFeatureEngineer'' # evs @ [Completed ''CleanAndFeatureEngineer''])
            (CallScoringService E x v)
      | (Raised e c, evs) \<Rightarrow>
          (Failed ''ApplicationProcessingFailedError'' c,
           Entered ''CleanAndFeatureEngineer'' # evs @ [Caught ''CleanAndFeatureEngineer'' e]
             @ dlq_events E x e c))"
  by (simp add: CleanAndFeatureEngineer_def exec_task_def CleanAndFeatureEngineer_task_def
      catch_all_def error_matches_def SendToDLQ_eq after_def update_conv' run_loop_def
      split: prod.splits reply.splits)

text \<open>
  A state without \<^verbatim>\<open>features_for_scoring\<close> fails the execution at the scoring stage's
  InputPath, before any invocation and past every Catch.
\<close>

lemma Score_without_features:
  "get_path [''features_for_scoring''] st = None \<Longrightarrow>
   CallScoringService E x st =
     (Failed ''States.Runtime'' ''invalid InputPath'', [Entered ''CallScoringService''])"
  by (simp add: CallScoringService_def exec_task_def CallScoringService_task_def)

lemma get_field_object:
  "get_path [k] st = Some f \<Longrightarrow> \<exists>kvs. st = JObj kvs \<and> map_of kvs k = Some f"
  by (cases st) (auto split: option.splits)

section \<open>The ways an execution can go\<close>

lemma run_cases:
  obtains
    (clean_failed) e c cev where
      "run_loop CleanAndFeatureEngineer_task ''CleanAndFeatureEngineer'' (clean E) E (JObj input)
         = (Raised e c, cev)"
      "run E input =
         (Failed ''ApplicationProcessingFailedError'' c,
          Entered ''CleanAndFeatureEngineer'' # cev @ [Caught ''CleanAndFeatureEngineer'' e]
            @ dlq_events E (JObj input) e c)"
  | (score_unreadable) st cev where
      "run_loop CleanAndFeatureEngineer_task ''CleanAndFeatureEngineer'' (clean E) E (JObj input)
         = (Returned st, cev)"
      "get_path [''features_for_scoring''] st = None"
      "run E input =
         (Failed ''States.Runtime'' ''invalid InputPath'',
          Entered ''CleanAndFeatureEngineer'' # cev @ [Completed ''CleanAndFeatureEngineer'']
            @ [Entered ''CallScoringService''])"
  | (score_failed) f kvs cev e c sev where
      "run_loop CleanAndFeatureEngineer_task ''CleanAndFeatureEngineer'' (clean E) E (JObj input)
         = (Returned (JObj kvs), cev)"
      "run_loop CallScoringService_task ''CallScoringService'' (score E) E f = (Raised e c, sev)"
      "run E input =
         (Failed ''ApplicationProcessingFailedError'' c,
          Entered ''CleanAndFeatureEngineer'' # cev @ [Completed ''CleanAndFeatureEngineer'']
            @ Entered ''CallScoringService'' # sev @ [Caught ''CallScoringService'' e]
            @ dlq_events E (JObj input) e c)"
      "map_of kvs ''features_for_scoring'' = Some f"
  | (persist_failed) f kvs cev v sev e c pev where
      "run_loop CleanAndFeatureEngineer_task ''CleanAndFeatureEngineer'' (clean E) E (JObj input)
         = (Returned (JObj kvs), cev)"
      "run_loop CallScoringService_task ''CallScoringService'' (score E) E f = (Returned v, sev)"
      "run_loop PersistScoredApplication_task ''PersistScoredApplication'' (persist E) E
         (scored kvs v) = (Raised e c, pev)"
      "run E input =
         (Failed ''ApplicationProcessingFailedError'' c,
          Entered ''CleanAndFeatureEngineer'' # cev @ [Completed ''CleanAndFeatureEngineer'']
            @ Entered ''CallScoringService'' # sev @ [Completed ''CallScoringService'']
            @ Entered ''PersistScoredApplication'' # pev @ [Caught ''PersistScoredApplication'' e]
            @ dlq_events E (JObj input) e c)"
      "map_of kvs ''features_for_scoring'' = Some f"
  | (succeeded) f kvs cev v sev out pev where
      "run_loop CleanAndFeatureEngineer_task ''CleanAndFeatureEngineer'' (clean E) E (JObj input)
         = (Returned (JObj kvs), cev)"
      "run_loop CallScoringService_task ''CallScoringService'' (score E) E f = (Returned v, sev)"
      "run_loop PersistScoredApplication_task ''PersistScoredApplication'' (persist E) E
         (scored kvs v) = (Returned out, pev)"
      "run E input =
         (Succeeded out,
          Entered ''CleanAndFeatureEngineer'' # cev @ [Completed ''CleanAndFeatureEngineer'']
            @ Entered ''CallScoringService'' # sev @ [Completed ''CallScoringService'']
            @ Entered ''PersistScoredApplication'' # pev @ [Completed ''PersistScoredApplication''])"
      "map_of kvs ''features_for_scoring'' = Some f"
proof -
  obtain r cev where clean:
    "run_loop CleanAndFeatureEngineer_task ''CleanAndFeatureEngineer'' (clean E) E (JObj input) = (r, cev)"
    by (cases "run_loop CleanAndFeatureEngineer_task ''CleanAndFeatureEngineer'' (clean E) E (JObj input)")
  show ?thesis
  proof (cases r)
    case (Raised e c)
    with clean show ?thesis
      using clean_failed [of e c cev] by (simp add: run_def Clean_eq)
  next
    case (Returned st)
    show ?thesis
    proof (cases "get_path [''features_for_scoring''] st")
      case None
      with clean Returned show ?thesis
        using score_unreadable [of st cev]
        by (simp add: run_def Clean_eq Score_without_features after_def)
    next
      case (Some f)
      then obtain kvs where st: "st = JObj kvs" and f: "map_of kvs ''features_for_scoring'' = Some f"
        using get_field_object by blast
      obtain r2 sev where score:
        "run_loop CallScoringService_task ''CallScoringService'' (score E) E f = (r2, sev)"
        by (cases "run_loop CallScoringService_task ''CallScoringService'' (score E) E f")
      show ?thesis
      proof (cases r2)
        case (Raised e c)
        with clean Returned st f score show ?thesis
          using score_failed [of kvs cev f e c sev]
          by (simp add: run_def Clean_eq Score_eq after_def)
      next
        case v: (Returned v)
        obtain r3 pev where persist:
          "run_loop PersistScoredApplication_task ''PersistScoredApplication'' (persist E) E
             (scored kvs v) = (r3, pev)"
          by (cases "run_loop PersistScoredApplication_task ''PersistScoredApplication'' (persist E) E
             (scored kvs v)")
        show ?thesis
        proof (cases r3)
          case (Raised e c)
          with clean Returned st f score v persist show ?thesis
            using persist_failed [of kvs cev f v sev e c pev]
            by (simp add: run_def Clean_eq Score_eq Persist_eq after_def scored_def)
        next
          case out: (Returned out)
          with clean Returned st f score v persist show ?thesis
            using succeeded [of kvs cev f v sev out pev]
            by (simp add: run_def Clean_eq Score_eq Persist_eq after_def scored_def)
        qed
      qed
    qed
  qed
qed

section \<open>Events of an execution\<close>

lemma run_loop_events:
  "run_loop t s fn E inp = (r, evs) \<Longrightarrow> list_all (loop_event s inp) evs"
  using attempts_events [of s inp t fn "jitter E s" "map MaxAttempts (Retry t)" 0]
  by (simp add: run_loop_def)

lemma loop_no_stage [simp]:
  "list_all (loop_event s inp) evs \<Longrightarrow> concat (map entered_stage evs) = []"
  by (induction evs) (auto elim: loop_event.elims)

lemma loop_no_other_invocation:
  "list_all (loop_event s inp) evs \<Longrightarrow> e \<in> set evs \<Longrightarrow> is_invocation s' e \<Longrightarrow> s' = s"
  by (induction evs) (auto elim: loop_event.elims)

lemma loop_filter_other [simp]:
  "list_all (loop_event s inp) evs \<Longrightarrow> s' \<noteq> s \<Longrightarrow> filter (is_invocation s') evs = []"
  by (induction evs) (auto elim: loop_event.elims)

lemma loop_no_marks [simp]:
  "list_all (loop_event s inp) evs \<Longrightarrow> Completed a \<notin> set evs"
  "list_all (loop_event s inp) evs \<Longrightarrow> Caught a b \<notin> set evs"
  "list_all (loop_event s inp) evs \<Longrightarrow> Entered a \<notin> set evs"
  by (induction evs) (auto elim: loop_event.elims)

lemma loop_invoked:
  "list_all (loop_event s inp) evs \<Longrightarrow> Invoked s' n i \<in> set evs \<Longrightarrow> s' = s \<and> i = inp"
  by (induction evs) (auto elim: loop_event.elims)

lemma dlq_events_simps [simp]:
  "concat (map entered_stage (dlq_events E x e c)) = []"
  "s \<noteq> ''SendToDLQ'' \<Longrightarrow> filter (is_invocation s) (dlq_events E x e c) = []"
  "length (filter (is_invocation ''SendToDLQ'') (dlq_events E x e c)) = 1"
  "s \<noteq> ''SendToDLQ'' \<Longrightarrow> Completed s \<notin> set (dlq_events E x e c)"
  by (simp_all add: dlq_events_def split: reply.splits)

lemma before_invocation_mem:
  "\<forall>e \<in> set pre. \<not> is_invocation s e \<Longrightarrow> x \<in> set pre
   \<Longrightarrow> x \<in> set (before_invocation s (pre @ post))"
  by (simp add: before_invocation_def takeWhile_append2)

section \<open>Stage order\<close>

text \<open>
  C3: in every execution the stages run are a prefix of CleanAndFeatureEngineer,
  CallScoringService, PersistScoredApplication, none skipped or reordered. The scoring
  service is not invoked before the cleaning stage completed, nor the persisting function
  before the scoring stage completed. The execution ends with the completion of
  PersistScoredApplication, or failed: in ProcessingFailed, or, when the state the cleaning
  stage handed on has no \<^verbatim>\<open>features_for_scoring\<close>, at the scoring stage's InputPath
  before its first invocation.
\<close>

theorem stage_sequence:
  assumes "run E input = (out, tr)"
  shows "prefix (stages_executed tr)
           [''CleanAndFeatureEngineer'', ''CallScoringService'', ''PersistScoredApplication'']
       \<and> stages_executed tr \<noteq> []
       \<and> (0 < invocations ''CallScoringService'' tr \<longrightarrow>
            Completed ''CleanAndFeatureEngineer'' \<in> set (before_invocation ''CallScoringService'' tr))
       \<and> (0 < invocations ''PersistScoredApplication'' tr \<longrightarrow>
            Completed ''CallScoringService'' \<in> set (before_invocation ''PersistScoredApplication'' tr))
       \<and> ((\<exists>v. out = Succeeded v
              \<and> stages_executed tr =
                  [''CleanAndFeatureEngineer'', ''CallScoringService'', ''PersistScoredApplication'']
              \<and> last tr = Completed ''PersistScoredApplication'')
          \<or> (\<exists>c. out = Failed ''ApplicationProcessingFailedError'' c
              \<and> Completed ''PersistScoredApplication'' \<notin> set tr)
          \<or> (out = Failed ''States.Runtime'' ''invalid InputPath''
              \<and> invocations ''CallScoringService'' tr = 0
              \<and> Completed ''PersistScoredApplication'' \<notin> set tr))"
proof (cases rule: run_cases [of E input])
  case (clean_failed e c cev)
  note ev = run_loop_events [OF clean_failed(1)]
  from clean_failed assms ev show ?thesis
    by (auto simp: stages_executed_def invocations_def)
next
  case (score_unreadable st cev)
  note ev = run_loop_events [OF score_unreadable(1)]
  from score_unreadable(3) assms ev show ?thesis
    by (auto simp: stages_executed_def invocations_def)
next
  case (score_failed f kvs cev e c sev)
  note ev = run_loop_events [OF score_failed(1)] run_loop_events [OF score_failed(2)]
  let ?pre = "Entered ''CleanAndFeatureEngineer'' # cev @ [Completed ''CleanAndFeatureEngineer'']"
  have "Completed ''CleanAndFeatureEngineer'' \<in> set (before_invocation ''CallScoringService''
     (?pre @ Entered ''CallScoringService'' # sev @ [Caught ''CallScoringService'' e]
            @ dlq_events E (JObj input) e c))"
    by (rule before_invocation_mem) (use ev in \<open>auto dest: loop_no_other_invocation\<close>)
  with score_failed assms ev show ?thesis
    by (auto simp: stages_executed_def invocations_def)
next
  case (persist_failed f kvs cev v sev e c pev)
  note ev = run_loop_events [OF persist_failed(1)] run_loop_events [OF persist_failed(2)]
    run_loop_events [OF persist_failed(3)]
  let ?pre = "Entered ''CleanAndFeatureEngineer'' # cev @ [Completed ''CleanAndFeatureEngineer'']"
  let ?pre2 = "?pre @ Entered ''CallScoringService'' # sev @ [Completed ''CallScoringService'']"
  let ?post = "Entered ''PersistScoredApplication'' # pev @ [Caught ''PersistScoredApplication'' e]
            @ dlq_events E (JObj input) e c"
  have "Completed ''CleanAndFeatureEngineer'' \<in> set (before_invocation ''CallScoringService''
     (?pre @ Entered ''CallScoringService'' # sev @ [Completed ''CallScoringService''] @ ?post))"
    by (rule before_invocation_mem) (use ev in \<open>auto dest: loop_no_other_invocation\<close>)
  moreover have "Completed ''CallScoringService'' \<in> set (before_invocation ''PersistScoredApplication''
     (?pre2 @ ?post))"
    by (rule before_invocation_mem) (use ev in \<open>auto dest: loop_no_other_invocation\<close>)
  ultimately show ?thesis
    using persist_failed assms ev by (auto simp: stages_executed_def invocations_def)
next
  case (succeeded f kvs cev v sev out' pev)
  note ev = run_loop_events [OF succeeded(1)] run_loop_events [OF succeeded(2)]
    run_loop_events [OF succeeded(3)]
  let ?pre = "Entered ''CleanAndFeatureEngineer'' # cev @ [Completed ''CleanAndFeatureEngineer'']"
  let ?pre2 = "?pre @ Entered ''CallScoringService'' # sev @ [Completed ''CallScoringService'']"
  let ?post = "Entered ''PersistScoredApplication'' # pev @ [Completed ''PersistScoredApplication'']"
  have "Completed ''CleanAndFeatureEngineer'' \<in> set (before_invocation ''CallScoringService''
     (?pre @ Entered ''CallScoringService'' # sev @ [Completed ''CallScoringService''] @ ?post))"
    by (rule before_invocation_mem) (use ev in \<open>auto dest: loop_no_other_invocation\<close>)
  moreover have "Completed ''CallScoringService'' \<in> set (before_invocation ''PersistScoredApplication''
     (?pre2 @ ?post))"
    by (rule before_invocation_mem) (use ev in \<open>auto dest: loop_no_other_invocation\<close>)
  ultimately show ?thesis
    using succeeded assms ev by (auto simp: stages_executed_def invocations_def)
qed

theorem stage_sequence_witness:
  "0 < invocations ''CallScoringService'' (snd (run env_ok example_input))
   \<and> Completed ''CleanAndFeatureEngineer''
       \<in> set (before_invocation ''CallScoringService'' (snd (run env_ok example_input)))
   \<and> 0 < invocations ''PersistScoredApplication'' (snd (run env_ok example_input))
   \<and> Completed ''CallScoringService''
       \<in> set (before_invocation ''PersistScoredApplication'' (snd (run env_ok example_input)))
   \<and> stages_executed (snd (run env_ok example_input)) =
       [''CleanAndFeatureEngineer'', ''CallScoringService'', ''PersistScoredApplication'']"
proof -
  have inv: "0 < invocations ''CallScoringService'' (snd (run env_ok example_input))"
    "0 < invocations ''PersistScoredApplication'' (snd (run env_ok example_input))"
    by code_simp+
  have out: "fst (run env_ok example_input) = Succeeded (JStr ''stored'')"
    by code_simp
  have pair: "run env_ok example_input =
      (fst (run env_ok example_input), snd (run env_ok example_input))"
    by simp
  from stage_sequence [OF pair] inv out show ?thesis
    by auto
qed

lemma env_send_message_irrelevant [simp]:
  "run_loop t s fn (E\<lparr>send_message := q\<rparr>) inp = run_loop t s fn E inp"
  by (simp add: run_loop_def)

lemma dlq_events_last:
  "last (dlq_events E x e c) = Completed ''SendToDLQ''
   \<or> (\<exists>e'. last (dlq_events E x e c) = Caught ''SendToDLQ'' e')"
  by (simp add: dlq_events_def split: reply.splits)

lemma dlq_events_nonempty [simp]: "dlq_events E x e c \<noteq> []"
  by (simp add: dlq_events_def)

section \<open>The dead-letter path\<close>

text \<open>
  C5, as the document has it: an execution in which a stage's error was caught ends in
  ProcessingFailed, with the error ApplicationProcessingFailedError, after exactly one
  invocation of the dead-letter send; the send is the last thing it does, accepted or
  refused. Whatever the queue answers (\<open>q\<close> is any behaviour of the queue), the
  execution ends the same way: a refused send is caught and neither retried nor turned
  into a success. The only other failed executions are those the interpreter fails with
  States.Runtime at the scoring stage's InputPath; they catch nothing and send nothing.
\<close>

theorem dead_letter_once:
  assumes "run E input = (out, tr)"
  shows "(case out of
            Succeeded v \<Rightarrow> invocations ''SendToDLQ'' tr = 0
          | Failed e c \<Rightarrow>
              if e = ''ApplicationProcessingFailedError''
              then invocations ''SendToDLQ'' tr = 1
                 \<and> (last tr = Completed ''SendToDLQ'' \<or> (\<exists>e'. last tr = Caught ''SendToDLQ'' e'))
                 \<and> (\<exists>s e'. s \<in> {''CleanAndFeatureEngineer'', ''CallScoringService'',
                                  ''PersistScoredApplication''}
                          \<and> Caught s e' \<in> set tr)
              else e = ''States.Runtime''
                 \<and> invocations ''SendToDLQ'' tr = 0
                 \<and> invocations ''CallScoringService'' tr = 0
                 \<and> (\<forall>s e'. Caught s e' \<notin> set tr))
       \<and> ((\<exists>s e'. Caught s e' \<in> set tr) \<longrightarrow>
             (\<exists>c. out = Failed ''ApplicationProcessingFailedError'' c))
       \<and> fst (run (E\<lparr>send_message := q\<rparr>) input) = out"
proof (cases rule: run_cases [of E input])
  case (clean_failed e c cev)
  note ev = run_loop_events [OF clean_failed(1)]
  from clean_failed(2) assms have out: "out = Failed ''ApplicationProcessingFailedError'' c"
    and tr: "tr = Entered ''CleanAndFeatureEngineer'' # cev @ [Caught ''CleanAndFeatureEngineer'' e]
            @ dlq_events E (JObj input) e c"
    by simp_all
  have inv: "invocations ''SendToDLQ'' tr = 1"
    unfolding tr using ev by (simp add: invocations_def)
  have lst: "last tr = Completed ''SendToDLQ'' \<or> (\<exists>e'. last tr = Caught ''SendToDLQ'' e')"
    unfolding tr using dlq_events_last [of E "JObj input" e c] by simp
  have "Caught ''CleanAndFeatureEngineer'' e \<in> set tr"
    unfolding tr by simp
  then have cgt: "\<exists>s e'. s \<in> {''CleanAndFeatureEngineer'', ''CallScoringService'',
      ''PersistScoredApplication''} \<and> Caught s e' \<in> set tr"
    by blast
  from clean_failed(1) have "fst (run (E\<lparr>send_message := q\<rparr>) input) = out"
    unfolding out by (simp add: run_def Clean_eq)
  with inv lst cgt show ?thesis
    unfolding out by simp
next
  case (score_unreadable st cev)
  note ev = run_loop_events [OF score_unreadable(1)]
  from score_unreadable(3) assms have out: "out = Failed ''States.Runtime'' ''invalid InputPath''"
    and tr: "tr = Entered ''CleanAndFeatureEngineer'' # cev @ [Completed ''CleanAndFeatureEngineer'']
            @ [Entered ''CallScoringService'']"
    by simp_all
  have inv: "invocations ''SendToDLQ'' tr = 0" "invocations ''CallScoringService'' tr = 0"
    unfolding tr using ev by (simp_all add: invocations_def)
  have none: "Caught s e' \<notin> set tr" for s e'
    unfolding tr using ev by simp
  from score_unreadable(1,2) have "fst (run (E\<lparr>send_message := q\<rparr>) input) = out"
    unfolding out by (simp add: run_def Clean_eq Score_without_features after_def)
  with inv none show ?thesis
    unfolding out by simp
next
  case (score_failed f kvs cev e c sev)
  note ev = run_loop_events [OF score_failed(1)] run_loop_events [OF score_failed(2)]
  from score_failed(3) assms have out: "out = Failed ''ApplicationProcessingFailedError'' c"
    and tr: "tr = Entered ''CleanAndFeatureEngineer'' # cev @ [Completed ''CleanAndFeatureEngineer'']
            @ Entered ''CallScoringService'' # sev @ [Caught ''CallScoringService'' e]
            @ dlq_events E (JObj input) e c"
    by simp_all
  have inv: "invocations ''SendToDLQ'' tr = 1"
    unfolding tr using ev by (simp add: invocations_def)
  have lst: "last tr = Completed ''SendToDLQ'' \<or> (\<exists>e'. last tr = Caught ''SendToDLQ'' e')"
    unfolding tr using dlq_events_last [of E "JObj input" e c] by simp
  have "Caught ''CallScoringService'' e \<in> set tr"
    unfolding tr by simp
  then have cgt: "\<exists>s e'. s \<in> {''CleanAndFeatureEngineer'', ''CallScoringService'',
      ''PersistScoredApplication''} \<and> Caught s e' \<in> set tr"
    by blast
  from score_failed(1,2,4) have "fst (run (E\<lparr>send_message := q\<rparr>) input) = out"
    unfolding out by (simp add: run_def Clean_eq Score_eq after_def)
  with inv lst cgt show ?thesis
    unfolding out by simp
next
  case (persist_failed f kvs cev v sev e c pev)
  note ev = run_loop_events [OF persist_failed(1)] run_loop_events [OF persist_failed(2)]
    run_loop_events [OF persist_failed(3)]
  from persist_failed(4) assms have out: "out = Failed ''ApplicationProcessingFailedError'' c"
    and tr: "tr = Entered ''CleanAndFeatureEngineer'' # cev @ [Completed ''CleanAndFeatureEngineer'']
            @ Entered ''CallScoringService'' # sev @ [Completed ''CallScoringService'']
            @ Entered ''PersistScoredApplication'' # pev @ [Caught ''PersistScoredApplication'' e]
            @ dlq_events E (JObj input) e c"
    by simp_all
  have inv: "invocations ''SendToDLQ'' tr = 1"
    unfolding tr using ev by (simp add: invocations_def)
  have lst: "last tr = Completed ''SendToDLQ'' \<or> (\<exists>e'. last tr = Caught ''SendToDLQ'' e')"
    unfolding tr using dlq_events_last [of E "JObj input" e c] by simp
  have "Caught ''PersistScoredApplication'' e \<in> set tr"
    unfolding tr by simp
  then have cgt: "\<exists>s e'. s \<in> {''CleanAndFeatureEngineer'', ''CallScoringService'',
      ''PersistScoredApplication''} \<and> Caught s e' \<in> set tr"
    by blast
  from persist_failed(1,2,3,5) have "fst (run (E\<lparr>send_message := q\<rparr>) input) = out"
    unfolding out by (simp add: run_def Clean_eq Score_eq Persist_eq after_def scored_def)
  with inv lst cgt show ?thesis
    unfolding out by simp
next
  case (succeeded f kvs cev v sev out' pev)
  note ev = run_loop_events [OF succeeded(1)] run_loop_events [OF succeeded(2)]
    run_loop_events [OF succeeded(3)]
  from succeeded(4) assms have out: "out = Succeeded out'"
    and tr: "tr = Entered ''CleanAndFeatureEngineer'' # cev @ [Completed ''CleanAndFeatureEngineer'']
            @ Entered ''CallScoringService'' # sev @ [Completed ''CallScoringService'']
            @ Entered ''PersistScoredApplication'' # pev @ [Completed ''PersistScoredApplication'']"
    by simp_all
  have inv: "invocations ''SendToDLQ'' tr = 0"
    unfolding tr using ev by (simp add: invocations_def)
  have none: "Caught s e' \<notin> set tr" for s e'
    unfolding tr using ev by simp
  from succeeded(1,2,3,5) have "fst (run (E\<lparr>send_message := q\<rparr>) input) = out"
    unfolding out by (simp add: run_def Clean_eq Score_eq Persist_eq after_def scored_def)
  with inv none show ?thesis
    unfolding out by simp
qed

theorem dead_letter_once_witness:
  "run env_queue_down example_input =
     (Failed ''ApplicationProcessingFailedError'' ''service unavailable'',
      snd (run env_queue_down example_input))
   \<and> Caught ''CallScoringService'' ''ScoringServiceCallFailed''
       \<in> set (snd (run env_queue_down example_input))
   \<and> invocations ''SendToDLQ'' (snd (run env_queue_down example_input)) = 1
   \<and> last (snd (run env_queue_down example_input)) = Caught ''SendToDLQ'' ''SQS.SdkClientException''
   \<and> fst (run (env_queue_down\<lparr>send_message := send_message env_ok\<rparr>) example_input) =
       Failed ''ApplicationProcessingFailedError'' ''service unavailable''"
proof -
  have out: "fst (run env_queue_down example_input) =
      Failed ''ApplicationProcessingFailedError'' ''service unavailable''"
    by code_simp
  have lst: "last (snd (run env_queue_down example_input)) =
      Caught ''SendToDLQ'' ''SQS.SdkClientException''"
    by code_simp
  have cgt: "Caught ''CallScoringService'' ''ScoringServiceCallFailed''
       \<in> set (snd (run env_queue_down example_input))"
    by code_simp
  have pair: "run env_queue_down example_input =
      (fst (run env_queue_down example_input), snd (run env_queue_down example_input))"
    by simp
  from dead_letter_once [OF pair, of "send_message env_ok"] out lst cgt pair show ?thesis
    by auto
qed

text \<open>
  C5 as stated fails: when the cleaning function answers an object without
  \<^verbatim>\<open>features_for_scoring\<close>, the execution fails with States.Runtime and the dead-letter
  send is never invoked.
\<close>

theorem dead_letter_once_counterexample:
  "fst (run env_no_features example_input) = Failed ''States.Runtime'' ''invalid InputPath''
   \<and> invocations ''SendToDLQ'' (snd (run env_no_features example_input)) = 0
   \<and> dead_letters (snd (run env_no_features example_input)) = []
   \<and> snd (run env_no_features example_input) =
       [Entered ''CleanAndFeatureEngineer'',
        Invoked ''CleanAndFeatureEngineer'' 0 (JObj example_input),
        Completed ''CleanAndFeatureEngineer'',
        Entered ''CallScoringService'']"
  by code_simp

lemma loop_no_letters [simp]:
  "list_all (loop_event s inp) evs \<Longrightarrow> s \<noteq> ''SendToDLQ'' \<Longrightarrow> concat (map sent_message evs) = []"
  by (induction evs) (auto elim: loop_event.elims)

lemma dlq_events_letters [simp]:
  "concat (map sent_message (dlq_events E x e c)) = [dlq_message x (error_output e c)]"
  by (simp add: dlq_events_def split: reply.splits)

lemma dlq_events_caught [simp]:
  "s \<noteq> ''SendToDLQ'' \<Longrightarrow> Caught s e' \<notin> set (dlq_events E x e c)"
  by (simp add: dlq_events_def split: reply.splits)

lemma dlq_message_body:
  "get_path [''MessageBody''] (dlq_message x (error_output e c)) =
     Some (JObj [(''failedStage'', JStr ''CleanAndFeatureEngineer''),
                 (''errorInfo'', JObj [(''Error'', JStr e), (''Cause'', JStr c)]),
                 (''input'', x)])"
  by (simp add: dlq_message_def error_output_def)

text \<open>
  C1, as the document has it: an execution that fails in ProcessingFailed has handed
  exactly one message to the failure queue, and the body of the message has three fields:
  \<^verbatim>\<open>failedStage\<close>, the name of a stage; \<^verbatim>\<open>errorInfo\<close>, the error and the cause with
  which the failing stage's retry loop ended (the cause is also the cause of the failed
  execution); and \<^verbatim>\<open>input\<close>, the input the execution was started with. The body has no
  field for the application id and none for a timestamp. No other execution hands over a
  message.
\<close>

theorem failure_message_fields:
  assumes "run E input = (out, tr)"
  shows "(\<forall>c. out = Failed ''ApplicationProcessingFailedError'' c \<longrightarrow>
           (\<exists>m s e stage.
               dead_letters tr = [m]
             \<and> s \<in> {''CleanAndFeatureEngineer'', ''CallScoringService'',
                     ''PersistScoredApplication''}
             \<and> Caught s e \<in> set tr
             \<and> stage \<in> {''CleanAndFeatureEngineer'', ''CallScoringService'',
                         ''PersistScoredApplication''}
             \<and> get_path [''MessageBody''] m =
                 Some (JObj [(''failedStage'', JStr stage),
                             (''errorInfo'', JObj [(''Error'', JStr e), (''Cause'', JStr c)]),
                             (''input'', JObj input)])))
       \<and> (dead_letters tr \<noteq> [] \<longrightarrow> (\<exists>c. out = Failed ''ApplicationProcessingFailedError'' c))"
proof (cases rule: run_cases [of E input])
  case (clean_failed e c cev)
  note ev = run_loop_events [OF clean_failed(1)]
  from clean_failed(2) assms(1) ev
  have dl: "dead_letters tr = [dlq_message (JObj input) (error_output e c)]"
    and cg: "Caught ''CleanAndFeatureEngineer'' e \<in> set tr"
    and out: "out = Failed ''ApplicationProcessingFailedError'' c"
    by (auto simp: dead_letters_def)
  have "\<exists>m s e' stage.
               dead_letters tr = [m]
             \<and> s \<in> {''CleanAndFeatureEngineer'', ''CallScoringService'',
                     ''PersistScoredApplication''}
             \<and> Caught s e' \<in> set tr
             \<and> stage \<in> {''CleanAndFeatureEngineer'', ''CallScoringService'',
                         ''PersistScoredApplication''}
             \<and> get_path [''MessageBody''] m =
                 Some (JObj [(''failedStage'', JStr stage),
                             (''errorInfo'', JObj [(''Error'', JStr e'), (''Cause'', JStr c)]),
                             (''input'', JObj input)])"
    by (intro exI [of _ "dlq_message (JObj input) (error_output e c)"]
        exI [of _ "''CleanAndFeatureEngineer''"] exI [of _ e]
        exI [of _ "''CleanAndFeatureEngineer''"]) (simp add: dl cg dlq_message_body)
  then show ?thesis
    unfolding out by simp
next
  case (score_unreadable st cev)
  note ev = run_loop_events [OF score_unreadable(1)]
  from score_unreadable(3) assms(1) ev have "dead_letters tr = []"
    and "out = Failed ''States.Runtime'' ''invalid InputPath''"
    by (auto simp: dead_letters_def)
  then show ?thesis by simp
next
  case (score_failed f kvs cev e c sev)
  note ev = run_loop_events [OF score_failed(1)] run_loop_events [OF score_failed(2)]
  from score_failed(3) assms(1) ev
  have dl: "dead_letters tr = [dlq_message (JObj input) (error_output e c)]"
    and cg: "Caught ''CallScoringService'' e \<in> set tr"
    and out: "out = Failed ''ApplicationProcessingFailedError'' c"
    by (auto simp: dead_letters_def)
  have "\<exists>m s e' stage.
               dead_letters tr = [m]
             \<and> s \<in> {''CleanAndFeatureEngineer'', ''CallScoringService'',
                     ''PersistScoredApplication''}
             \<and> Caught s e' \<in> set tr
             \<and> stage \<in> {''CleanAndFeatureEngineer'', ''CallScoringService'',
                         ''PersistScoredApplication''}
             \<and> get_path [''MessageBody''] m =
                 Some (JObj [(''failedStage'', JStr stage),
                             (''errorInfo'', JObj [(''Error'', JStr e'), (''Cause'', JStr c)]),
                             (''input'', JObj input)])"
    by (intro exI [of _ "dlq_message (JObj input) (error_output e c)"]
        exI [of _ "''CallScoringService''"] exI [of _ e]
        exI [of _ "''CleanAndFeatureEngineer''"]) (simp add: dl cg dlq_message_body)
  then show ?thesis
    unfolding out by simp
next
  case (persist_failed f kvs cev v sev e c pev)
  note ev = run_loop_events [OF persist_failed(1)] run_loop_events [OF persist_failed(2)]
    run_loop_events [OF persist_failed(3)]
  from persist_failed(4) assms(1) ev
  have dl: "dead_letters tr = [dlq_message (JObj input) (error_output e c)]"
    and cg: "Caught ''PersistScoredApplication'' e \<in> set tr"
    and out: "out = Failed ''ApplicationProcessingFailedError'' c"
    by (auto simp: dead_letters_def)
  have "\<exists>m s e' stage.
               dead_letters tr = [m]
             \<and> s \<in> {''CleanAndFeatureEngineer'', ''CallScoringService'',
                     ''PersistScoredApplication''}
             \<and> Caught s e' \<in> set tr
             \<and> stage \<in> {''CleanAndFeatureEngineer'', ''CallScoringService'',
                         ''PersistScoredApplication''}
             \<and> get_path [''MessageBody''] m =
                 Some (JObj [(''failedStage'', JStr stage),
                             (''errorInfo'', JObj [(''Error'', JStr e'), (''Cause'', JStr c)]),
                             (''input'', JObj input)])"
    by (intro exI [of _ "dlq_message (JObj input) (error_output e c)"]
        exI [of _ "''PersistScoredApplication''"] exI [of _ e]
        exI [of _ "''CleanAndFeatureEngineer''"]) (simp add: dl cg dlq_message_body)
  then show ?thesis
    unfolding out by simp
next
  case (succeeded f kvs cev v sev out' pev)
  note ev = run_loop_events [OF succeeded(1)] run_loop_events [OF succeeded(2)]
    run_loop_events [OF succeeded(3)]
  from succeeded(4) assms(1) ev have "dead_letters tr = []" and "out = Succeeded out'"
    by (auto simp: dead_letters_def)
  then show ?thesis by simp
qed

theorem failure_message_fields_witness:
  "fst (run env_score_down example_input) =
     Failed ''ApplicationProcessingFailedError'' ''service unavailable''
   \<and> (\<exists>m s e stage.
         dead_letters (snd (run env_score_down example_input)) = [m]
       \<and> s \<in> {''CleanAndFeatureEngineer'', ''CallScoringService'', ''PersistScoredApplication''}
       \<and> Caught s e \<in> set (snd (run env_score_down example_input))
       \<and> stage \<in> {''CleanAndFeatureEngineer'', ''CallScoringService'',
                   ''PersistScoredApplication''}
       \<and> get_path [''MessageBody''] m =
           Some (JObj [(''failedStage'', JStr stage),
                       (''errorInfo'', JObj [(''Error'', JStr e),
                                             (''Cause'', JStr ''service unavailable'')]),
                       (''input'', JObj example_input)]))"
proof -
  have out: "fst (run env_score_down example_input) =
     Failed ''ApplicationProcessingFailedError'' ''service unavailable''"
    by code_simp
  have pair: "run env_score_down example_input =
      (fst (run env_score_down example_input), snd (run env_score_down example_input))"
    by simp
  from failure_message_fields [OF pair] out show ?thesis
    by blast
qed

text \<open>
  C1 as stated fails: when the scoring stage fails, the message names
  CleanAndFeatureEngineer as the failed stage, and its body has neither a timestamp nor an
  application id of its own.
\<close>

theorem failure_message_fields_counterexample:
  "stages_executed (snd (run env_score_down example_input)) =
     [''CleanAndFeatureEngineer'', ''CallScoringService'']
   \<and> Caught ''CallScoringService'' ''ScoringServiceCallFailed''
       \<in> set (snd (run env_score_down example_input))
   \<and> map (get_path [''MessageBody'', ''failedStage''])
       (dead_letters (snd (run env_score_down example_input))) =
       [Some (JStr ''CleanAndFeatureEngineer'')]
   \<and> map (get_path [''MessageBody'', ''timestamp''])
       (dead_letters (snd (run env_score_down example_input))) = [None]
   \<and> map (get_path [''MessageBody'', ''applicationId''])
       (dead_letters (snd (run env_score_down example_input))) = [None]"
  by code_simp

lemma dlq_invoked:
  "Invoked s n i \<in> set (dlq_events E x e c) \<Longrightarrow> s = ''SendToDLQ''"
  by (simp add: dlq_events_def split: reply.splits)

section \<open>What the scoring stage reads and writes\<close>

lemma get_scored:
  "get_path [k] (scored kvs v) =
     (if k = ''risk_score'' then Some v else get_path [k] (JObj kvs))"
  by (simp add: scored_def update_conv')

text \<open>
  C10: in an execution whose cleaning stage completed, with the state it handed on, every
  invocation of the scoring service gets the value of \<^verbatim>\<open>features_for_scoring\<close> of that
  state and nothing else, and the state every invocation of the persisting function gets
  has the score at \<^verbatim>\<open>risk_score\<close> and, at every other field, what the cleaning stage
  handed on.
\<close>

theorem scoring_frame:
  assumes "run E input = (out, tr)" and "Completed ''CleanAndFeatureEngineer'' \<in> set tr"
  shows "\<exists>st.
           fst (run_loop CleanAndFeatureEngineer_task ''CleanAndFeatureEngineer'' (clean E) E
                  (JObj input)) = Returned st
         \<and> (\<forall>n i. Invoked ''CallScoringService'' n i \<in> set tr \<longrightarrow>
               get_path [''features_for_scoring''] st = Some i)
         \<and> (\<forall>n p. Invoked ''PersistScoredApplication'' n p \<in> set tr \<longrightarrow>
               (\<exists>f v. get_path [''features_for_scoring''] st = Some f
                    \<and> fst (run_loop CallScoringService_task ''CallScoringService'' (score E) E f)
                       = Returned v
                    \<and> get_path [''risk_score''] p = Some v
                    \<and> (\<forall>k. k \<noteq> ''risk_score'' \<longrightarrow> get_path [k] p = get_path [k] st)))"
proof (cases rule: run_cases [of E input])
  case (clean_failed e c cev)
  note ev = run_loop_events [OF clean_failed(1)]
  from clean_failed(2) assms ev have False
    by (simp add: dlq_events_def split: reply.splits)
  then show ?thesis ..
next
  case (score_unreadable st cev)
  note ev = run_loop_events [OF score_unreadable(1)]
  from score_unreadable(3) assms(1) have tr: "tr =
      Entered ''CleanAndFeatureEngineer'' # cev @ [Completed ''CleanAndFeatureEngineer'']
        @ [Entered ''CallScoringService'']"
    by simp
  have sc: "Invoked ''CallScoringService'' n i \<notin> set tr" for n i
    using ev unfolding tr by (auto dest: loop_invoked)
  have pe: "Invoked ''PersistScoredApplication'' n p \<notin> set tr" for n p
    using ev unfolding tr by (auto dest: loop_invoked)
  show ?thesis
    using score_unreadable(1) sc pe by (intro exI [of _ st]) simp
next
  case (score_failed f kvs cev e c sev)
  note ev = run_loop_events [OF score_failed(1)] run_loop_events [OF score_failed(2)]
  from score_failed(3) assms(1) have tr: "tr =
      Entered ''CleanAndFeatureEngineer'' # cev @ [Completed ''CleanAndFeatureEngineer'']
        @ Entered ''CallScoringService'' # sev @ [Caught ''CallScoringService'' e]
        @ dlq_events E (JObj input) e c"
    by simp
  have sc: "i = f" if "Invoked ''CallScoringService'' n i \<in> set tr" for n i
    using that ev unfolding tr by (auto dest: loop_invoked dlq_invoked)
  have pe: "Invoked ''PersistScoredApplication'' n p \<notin> set tr" for n p
    using ev unfolding tr by (auto dest: loop_invoked dlq_invoked)
  show ?thesis
    using score_failed(1,4) pe by (intro exI [of _ "JObj kvs"]) (auto dest!: sc)
next
  case (persist_failed f kvs cev v sev e c pev)
  note ev = run_loop_events [OF persist_failed(1)] run_loop_events [OF persist_failed(2)]
    run_loop_events [OF persist_failed(3)]
  from persist_failed(4) assms(1) have tr: "tr =
      Entered ''CleanAndFeatureEngineer'' # cev @ [Completed ''CleanAndFeatureEngineer'']
        @ Entered ''CallScoringService'' # sev @ [Completed ''CallScoringService'']
        @ Entered ''PersistScoredApplication'' # pev @ [Caught ''PersistScoredApplication'' e]
        @ dlq_events E (JObj input) e c"
    by simp
  have sc: "i = f" if "Invoked ''CallScoringService'' n i \<in> set tr" for n i
    using that ev unfolding tr by (auto dest: loop_invoked dlq_invoked)
  have pe: "p = scored kvs v" if "Invoked ''PersistScoredApplication'' n p \<in> set tr" for n p
    using that ev unfolding tr by (auto dest: loop_invoked dlq_invoked)
  have ff: "get_path [''features_for_scoring''] (JObj kvs) = Some f"
    using persist_failed(5) by simp
  show ?thesis
    using persist_failed(1,2) ff
    by (intro exI [of _ "JObj kvs"]) (auto simp: get_scored dest!: pe sc)
next
  case (succeeded f kvs cev v sev out' pev)
  note ev = run_loop_events [OF succeeded(1)] run_loop_events [OF succeeded(2)]
    run_loop_events [OF succeeded(3)]
  from succeeded(4) assms(1) have tr: "tr =
      Entered ''CleanAndFeatureEngineer'' # cev @ [Completed ''CleanAndFeatureEngineer'']
        @ Entered ''CallScoringService'' # sev @ [Completed ''CallScoringService'']
        @ Entered ''PersistScoredApplication'' # pev @ [Completed ''PersistScoredApplication'']"
    by simp
  have sc: "i = f" if "Invoked ''CallScoringService'' n i \<in> set tr" for n i
    using that ev unfolding tr by (auto dest: loop_invoked)
  have pe: "p = scored kvs v" if "Invoked ''PersistScoredApplication'' n p \<in> set tr" for n p
    using that ev unfolding tr by (auto dest: loop_invoked)
  have ff: "get_path [''features_for_scoring''] (JObj kvs) = Some f"
    using succeeded(5) by simp
  show ?thesis
    using succeeded(1,2) ff
    by (intro exI [of _ "JObj kvs"]) (auto simp: get_scored dest!: pe sc)
qed

theorem scoring_frame_witness:
  "Completed ''CleanAndFeatureEngineer'' \<in> set (snd (run env_ok example_input))
   \<and> (\<exists>st.
         fst (run_loop CleanAndFeatureEngineer_task ''CleanAndFeatureEngineer'' (clean env_ok)
                env_ok (JObj example_input)) = Returned st
       \<and> (\<forall>n i. Invoked ''CallScoringService'' n i \<in> set (snd (run env_ok example_input))
                 \<longrightarrow> get_path [''features_for_scoring''] st = Some i)
       \<and> (\<forall>n p. Invoked ''PersistScoredApplication'' n p \<in> set (snd (run env_ok example_input))
                 \<longrightarrow>
             (\<exists>f v. get_path [''features_for_scoring''] st = Some f
                  \<and> fst (run_loop CallScoringService_task ''CallScoringService'' (score env_ok)
                          env_ok f) = Returned v
                  \<and> get_path [''risk_score''] p = Some v
                  \<and> (\<forall>k. k \<noteq> ''risk_score'' \<longrightarrow> get_path [k] p = get_path [k] st))))"
proof -
  have mem: "Completed ''CleanAndFeatureEngineer'' \<in> set (snd (run env_ok example_input))"
    by code_simp
  have pair: "run env_ok example_input =
      (fst (run env_ok example_input), snd (run env_ok example_input))"
    by simp
  from mem scoring_frame [OF pair mem] show ?thesis ..
qed

section \<open>Counting invocations\<close>

lemma attempts_index_ge:
  "Invoked s' m i \<in> set (snd (attempts t s fn jit inp left n)) \<Longrightarrow> n \<le> m"
proof (induction t s fn jit inp left n rule: attempts.induct)
  case (1 t s fn jit inp left n)
  show ?case
  proof (cases rule: attempts_cases [where t=t and fn=fn and n=n and inp=inp and s=s and jit=jit and left=left])
    case (retry e c i)
    with "1.IH" [of e c i] "1.prems" show ?thesis by auto
  qed (use "1.prems" in simp_all)
qed

lemma attempts_fatal_at:
  assumes "Invoked s m i \<in> set (snd (attempts t s fn jit inp left n))"
    and "invoke t (fn m inp) = Raised e c" and "find_retrier (Retry t) e = None"
  shows "fst (attempts t s fn jit inp left n) = Raised e c
       \<and> (\<forall>i'. Invoked s (Suc m) i' \<notin> set (snd (attempts t s fn jit inp left n)))"
  using assms
proof (induction t s fn jit inp left n rule: attempts.induct)
  case (1 t s fn jit inp left n)
  show ?case
  proof (cases rule: attempts_cases [where t=t and fn=fn and n=n and inp=inp and s=s and jit=jit and left=left])
    case (returned v)
    with "1.prems" show ?thesis by auto
  next
    case (fatal e' c')
    with "1.prems" show ?thesis by auto
  next
    case (exhausted e' c' j)
    with "1.prems" show ?thesis by auto
  next
    case (retry e' c' j)
    from retry "1.prems" have "m \<noteq> n" by auto
    with retry "1.prems"(1)
    have mem: "Invoked s m i \<in> set (snd (attempts t s fn jit inp (left[j := left ! j - 1]) (Suc n)))"
      by simp
    then have "Suc n \<le> m" by (rule attempts_index_ge)
    with "1.IH" [OF retry(1,2) _ mem "1.prems"(2,3)] retry show ?thesis by simp
  qed
qed

lemma attempts_always_retryable:
  assumes "Retry t = [r]"
    and "\<And>n. \<exists>e c. invoke t (fn n inp) = Raised e c \<and> error_matches (ErrorEquals r) e"
  shows "invocations s (snd (attempts t s fn jit inp [k] n)) = k + 1
       \<and> (\<exists>e c. fst (attempts t s fn jit inp [k] n) = Raised e c)"
proof (induction k arbitrary: n)
  case 0
  from assms(2) [of n] obtain e c where
    "invoke t (fn n inp) = Raised e c" "error_matches (ErrorEquals r) e" by blast
  then show ?case
    using assms(1) by (simp add: attempts.simps [of t s fn jit inp "[0]" n] invocations_def)
next
  case (Suc k)
  from assms(2) [of n] obtain e c where
    "invoke t (fn n inp) = Raised e c" "error_matches (ErrorEquals r) e" by blast
  with Suc [of "Suc n"] show ?case
    using assms(1)
    by (auto simp add: attempts.simps [of t s fn jit inp "[Suc k]" n] invocations_def
        split: prod.splits)
qed

lemma run_loop_invocations_le:
  "run_loop t s fn E inp = (r, evs) \<Longrightarrow>
   invocations s evs \<le> sum_list (map MaxAttempts (Retry t)) + 1"
  using attempts_invocations_le [of s t fn "jitter E s" inp "map MaxAttempts (Retry t)" 0]
  by (simp add: run_loop_def)

lemma invocations_append [simp]:
  "invocations s (xs @ ys) = invocations s xs + invocations s ys"
  "invocations s (Entered a # xs) = invocations s xs"
  "invocations s (Completed a # xs) = invocations s xs"
  "invocations s (Caught a b # xs) = invocations s xs"
  "invocations s [] = 0"
  by (simp_all add: invocations_def)

lemma invocations_other [simp]:
  "list_all (loop_event s inp) evs \<Longrightarrow> s' \<noteq> s \<Longrightarrow> invocations s' evs = 0"
  by (simp add: invocations_def)

lemma invocations_dlq [simp]:
  "s \<noteq> ''SendToDLQ'' \<Longrightarrow> invocations s (dlq_events E x e c) = 0"
  "invocations ''SendToDLQ'' (dlq_events E x e c) = 1"
  by (simp_all add: invocations_def)

lemma run_invocations:
  "invocations ''CleanAndFeatureEngineer'' (snd (run E input)) \<le> 3
   \<and> invocations ''CallScoringService'' (snd (run E input)) \<le> 4
   \<and> invocations ''PersistScoredApplication'' (snd (run E input)) \<le> 4"
proof (cases rule: run_cases [of E input])
  case (clean_failed e c cev)
  note ev = run_loop_events [OF clean_failed(1)]
  from run_loop_invocations_le [OF clean_failed(1)]
  have "invocations ''CleanAndFeatureEngineer'' cev \<le> 3"
    by (simp add: CleanAndFeatureEngineer_task_def)
  with clean_failed(2) ev show ?thesis by simp
next
  case (score_unreadable st cev)
  note ev = run_loop_events [OF score_unreadable(1)]
  from run_loop_invocations_le [OF score_unreadable(1)]
  have "invocations ''CleanAndFeatureEngineer'' cev \<le> 3"
    by (simp add: CleanAndFeatureEngineer_task_def)
  with score_unreadable(3) ev show ?thesis by simp
next
  case (score_failed f kvs cev e c sev)
  note ev = run_loop_events [OF score_failed(1)] run_loop_events [OF score_failed(2)]
  from run_loop_invocations_le [OF score_failed(1)] run_loop_invocations_le [OF score_failed(2)]
  have "invocations ''CleanAndFeatureEngineer'' cev \<le> 3"
    "invocations ''CallScoringService'' sev \<le> 4"
    by (simp_all add: CleanAndFeatureEngineer_task_def CallScoringService_task_def)
  with score_failed(3) ev show ?thesis by simp
next
  case (persist_failed f kvs cev v sev e c pev)
  note ev = run_loop_events [OF persist_failed(1)] run_loop_events [OF persist_failed(2)]
    run_loop_events [OF persist_failed(3)]
  from run_loop_invocations_le [OF persist_failed(1)] run_loop_invocations_le [OF persist_failed(2)]
    run_loop_invocations_le [OF persist_failed(3)]
  have "invocations ''CleanAndFeatureEngineer'' cev \<le> 3"
    "invocations ''CallScoringService'' sev \<le> 4"
    "invocations ''PersistScoredApplication'' pev \<le> 4"
    by (simp_all add: CleanAndFeatureEngineer_task_def CallScoringService_task_def
        PersistScoredApplication_task_def)
  with persist_failed(4) ev show ?thesis by simp
next
  case (succeeded f kvs cev v sev out' pev)
  note ev = run_loop_events [OF succeeded(1)] run_loop_events [OF succeeded(2)]
    run_loop_events [OF succeeded(3)]
  from run_loop_invocations_le [OF succeeded(1)] run_loop_invocations_le [OF succeeded(2)]
    run_loop_invocations_le [OF succeeded(3)]
  have "invocations ''CleanAndFeatureEngineer'' cev \<le> 3"
    "invocations ''CallScoringService'' sev \<le> 4"
    "invocations ''PersistScoredApplication'' pev \<le> 4"
    by (simp_all add: CleanAndFeatureEngineer_task_def CallScoringService_task_def
        PersistScoredApplication_task_def)
  with succeeded(4) ev show ?thesis by simp
qed

lemma dead_letters_simps [simp]:
  "dead_letters (xs @ ys) = dead_letters xs @ dead_letters ys"
  "dead_letters (Entered a # xs) = dead_letters xs"
  "dead_letters (Completed a # xs) = dead_letters xs"
  "dead_letters (Caught a b # xs) = dead_letters xs"
  "dead_letters [] = []"
  "dead_letters (dlq_events E x e c) = [dlq_message x (error_output e c)]"
  by (simp_all add: dead_letters_def dlq_events_def split: reply.splits)

lemma dead_letters_loop [simp]:
  "list_all (loop_event s inp) evs \<Longrightarrow> s \<noteq> ''SendToDLQ'' \<Longrightarrow> dead_letters evs = []"
  by (simp add: dead_letters_def)

lemma clean_stage:
  assumes "run E input = (out, tr)"
  shows "\<exists>inp r evs.
           run_loop CleanAndFeatureEngineer_task ''CleanAndFeatureEngineer'' (clean E) E
             inp = (r, evs)
         \<and> filter (is_invocation ''CleanAndFeatureEngineer'') tr
             = filter (is_invocation ''CleanAndFeatureEngineer'') evs
         \<and> (\<forall>e c. r = Raised e c \<longrightarrow>
               out = Failed ''ApplicationProcessingFailedError'' c
             \<and> Caught ''CleanAndFeatureEngineer'' e \<in> set tr
             \<and> dead_letters tr = [dlq_message (JObj input) (error_output e c)])"
proof (cases rule: run_cases [of E input])
  case (clean_failed e c cev)
  note ev = run_loop_events [OF clean_failed(1)]
  from clean_failed(2) assms ev show ?thesis
    by (intro exI [of _ "JObj input"] exI [of _ "Raised e c"] exI [of _ cev])
       (simp add: clean_failed(1))
next
  case (score_unreadable st cev)
  note ev = run_loop_events [OF score_unreadable(1)]
  from score_unreadable(3) assms ev show ?thesis
    by (intro exI [of _ "JObj input"] exI [of _ "Returned st"] exI [of _ cev])
       (simp add: score_unreadable(1))
next
  case (score_failed f kvs cev e c sev)
  note ev = run_loop_events [OF score_failed(1)] run_loop_events [OF score_failed(2)]
  from score_failed(3) assms ev show ?thesis
    by (intro exI [of _ "JObj input"] exI [of _ "Returned (JObj kvs)"] exI [of _ cev])
       (simp add: score_failed(1))
next
  case (persist_failed f kvs cev v sev e c pev)
  note ev = run_loop_events [OF persist_failed(1)] run_loop_events [OF persist_failed(2)]
    run_loop_events [OF persist_failed(3)]
  from persist_failed(4) assms ev show ?thesis
    by (intro exI [of _ "JObj input"] exI [of _ "Returned (JObj kvs)"] exI [of _ cev])
       (simp add: persist_failed(1))
next
  case (succeeded f kvs cev v sev out' pev)
  note ev = run_loop_events [OF succeeded(1)] run_loop_events [OF succeeded(2)]
    run_loop_events [OF succeeded(3)]
  from succeeded(4) assms ev show ?thesis
    by (intro exI [of _ "JObj input"] exI [of _ "Returned (JObj kvs)"] exI [of _ cev])
       (simp add: succeeded(1))
qed

lemma score_stage:
  assumes "run E input = (out, tr)" and "0 < invocations ''CallScoringService'' tr"
  shows "\<exists>inp r evs.
           run_loop CallScoringService_task ''CallScoringService'' (score E) E inp = (r, evs)
         \<and> filter (is_invocation ''CallScoringService'') tr
             = filter (is_invocation ''CallScoringService'') evs
         \<and> (\<forall>e c. r = Raised e c \<longrightarrow>
               out = Failed ''ApplicationProcessingFailedError'' c
             \<and> Caught ''CallScoringService'' e \<in> set tr
             \<and> dead_letters tr = [dlq_message (JObj input) (error_output e c)])"
proof (cases rule: run_cases [of E input])
  case (clean_failed e c cev)
  note ev = run_loop_events [OF clean_failed(1)]
  from clean_failed(2) assms ev have False by simp
  then show ?thesis ..
next
  case (score_unreadable st cev)
  note ev = run_loop_events [OF score_unreadable(1)]
  from score_unreadable(3) assms ev have False by simp
  then show ?thesis ..
next
  case (score_failed f kvs cev e c sev)
  note ev = run_loop_events [OF score_failed(1)] run_loop_events [OF score_failed(2)]
  from score_failed(3) assms ev show ?thesis
    by (intro exI [of _ f] exI [of _ "Raised e c"] exI [of _ sev]) (simp add: score_failed(2))
next
  case (persist_failed f kvs cev v sev e c pev)
  note ev = run_loop_events [OF persist_failed(1)] run_loop_events [OF persist_failed(2)]
    run_loop_events [OF persist_failed(3)]
  from persist_failed(4) assms ev show ?thesis
    by (intro exI [of _ f] exI [of _ "Returned v"] exI [of _ sev]) (simp add: persist_failed(2))
next
  case (succeeded f kvs cev v sev out' pev)
  note ev = run_loop_events [OF succeeded(1)] run_loop_events [OF succeeded(2)]
    run_loop_events [OF succeeded(3)]
  from succeeded(4) assms ev show ?thesis
    by (intro exI [of _ f] exI [of _ "Returned v"] exI [of _ sev]) (simp add: succeeded(2))
qed

lemma persist_stage:
  assumes "run E input = (out, tr)" and "0 < invocations ''PersistScoredApplication'' tr"
  shows "\<exists>inp r evs.
           run_loop PersistScoredApplication_task ''PersistScoredApplication'' (persist E) E inp
             = (r, evs)
         \<and> filter (is_invocation ''PersistScoredApplication'') tr
             = filter (is_invocation ''PersistScoredApplication'') evs
         \<and> (\<forall>e c. r = Raised e c \<longrightarrow>
               out = Failed ''ApplicationProcessingFailedError'' c
             \<and> Caught ''PersistScoredApplication'' e \<in> set tr
             \<and> dead_letters tr = [dlq_message (JObj input) (error_output e c)])"
proof (cases rule: run_cases [of E input])
  case (clean_failed e c cev)
  note ev = run_loop_events [OF clean_failed(1)]
  from clean_failed(2) assms ev have False by simp
  then show ?thesis ..
next
  case (score_unreadable st cev)
  note ev = run_loop_events [OF score_unreadable(1)]
  from score_unreadable(3) assms ev have False by simp
  then show ?thesis ..
next
  case (score_failed f kvs cev e c sev)
  note ev = run_loop_events [OF score_failed(1)] run_loop_events [OF score_failed(2)]
  from score_failed(3) assms ev have False by simp
  then show ?thesis ..
next
  case (persist_failed f kvs cev v sev e c pev)
  note ev = run_loop_events [OF persist_failed(1)] run_loop_events [OF persist_failed(2)]
    run_loop_events [OF persist_failed(3)]
  from persist_failed(4) assms ev show ?thesis
    by (intro exI [of _ "scored kvs v"] exI [of _ "Raised e c"] exI [of _ pev])
       (simp add: persist_failed(3))
next
  case (succeeded f kvs cev v sev out' pev)
  note ev = run_loop_events [OF succeeded(1)] run_loop_events [OF succeeded(2)]
    run_loop_events [OF succeeded(3)]
  from succeeded(4) assms ev show ?thesis
    by (intro exI [of _ "scored kvs v"] exI [of _ "Returned out'"] exI [of _ pev])
       (simp add: succeeded(3))
qed

lemma stage_summary:
  assumes "run E input = (out, tr)"
    and "(s, t, fn) \<in> {(''CleanAndFeatureEngineer'', CleanAndFeatureEngineer_task, clean E),
                        (''CallScoringService'', CallScoringService_task, score E),
                        (''PersistScoredApplication'', PersistScoredApplication_task, persist E)}"
    and "0 < invocations s tr"
  shows "\<exists>inp r evs.
           run_loop t s fn E inp = (r, evs)
         \<and> filter (is_invocation s) tr = filter (is_invocation s) evs
         \<and> (\<forall>e c. r = Raised e c \<longrightarrow>
               out = Failed ''ApplicationProcessingFailedError'' c
             \<and> Caught s e \<in> set tr
             \<and> dead_letters tr = [dlq_message (JObj input) (error_output e c)])"
  using assms(2)
proof (elim insertE emptyE)
  assume "(s, t, fn) = (''CleanAndFeatureEngineer'', CleanAndFeatureEngineer_task, clean E)"
  with clean_stage [OF assms(1)] show ?thesis by simp
next
  assume "(s, t, fn) = (''CallScoringService'', CallScoringService_task, score E)"
  with score_stage [OF assms(1)] assms(3) show ?thesis by simp
next
  assume "(s, t, fn) = (''PersistScoredApplication'', PersistScoredApplication_task, persist E)"
  with persist_stage [OF assms(1)] assms(3) show ?thesis by simp
qed

lemma no_retrier:
  assumes "t \<in> {CleanAndFeatureEngineer_task, CallScoringService_task, PersistScoredApplication_task}"
    and "\<forall>r \<in> set (Retry t). e \<notin> set (ErrorEquals r)"
  shows "find_retrier (Retry t) e = None"
  using assms
  by (auto simp: CleanAndFeatureEngineer_task_def CallScoringService_task_def
      PersistScoredApplication_task_def error_matches_def lambda_errors_def)

lemma run_loop_fatal_at:
  assumes "run_loop t s fn E inp = (r, evs)" and "Invoked s m i \<in> set evs"
    and "invoke t (fn m inp) = Raised e c" and "find_retrier (Retry t) e = None"
  shows "r = Raised e c \<and> (\<forall>i'. Invoked s (Suc m) i' \<notin> set evs)"
  using attempts_fatal_at [of s m i t fn "jitter E s" inp "map MaxAttempts (Retry t)" 0 e c] assms
  by (simp add: run_loop_def)

lemma filter_invocation_mem:
  "Invoked s n i \<in> set tr \<longleftrightarrow> Invoked s n i \<in> set (filter (is_invocation s) tr)"
  by simp

section \<open>Retry policies\<close>

text \<open>
  C6, as the document has it: the cleaning stage has a timeout of 120 seconds and one
  retrier, for the four Lambda errors and DataValidationError, with an interval of 3
  seconds, a backoff rate of 1.5, no jitter and at most 2 retries; the scoring stage has a
  timeout of 60 seconds and the persisting stage one of 90 seconds, each with one retrier
  with an interval of 5 seconds, a backoff rate of 2, full jitter and at most 3 retries.
  MaxAttempts bounds the retries, not the attempts: in every execution the cleaning
  function is invoked at most 2 + 1 times, the scoring service and the persisting function
  at most 3 + 1 times each.
\<close>

theorem retry_policies:
  "TimeoutSeconds CleanAndFeatureEngineer_task = Some 120
   \<and> Retry CleanAndFeatureEngineer_task =
       [\<lparr>ErrorEquals = lambda_errors @ [''DataValidationError''], IntervalSeconds = 3,
         MaxAttempts = 2, BackoffRate = 3 / 2, JitterStrategy = NONE\<rparr>]
   \<and> find_retrier (Retry CleanAndFeatureEngineer_task) ''DataValidationError'' = Some 0
   \<and> TimeoutSeconds CallScoringService_task = Some 60
   \<and> Retry CallScoringService_task =
       [\<lparr>ErrorEquals = lambda_errors @ [''ScoringServiceCallFailed''], IntervalSeconds = 5,
         MaxAttempts = 3, BackoffRate = 2, JitterStrategy = FULL\<rparr>]
   \<and> TimeoutSeconds PersistScoredApplication_task = Some 90
   \<and> Retry PersistScoredApplication_task =
       [\<lparr>ErrorEquals = lambda_errors @ [''DatabaseConnectionError'', ''DatabaseWriteError''],
         IntervalSeconds = 5, MaxAttempts = 3, BackoffRate = 2, JitterStrategy = FULL\<rparr>]
   \<and> invocations ''CleanAndFeatureEngineer'' (snd (run E input)) \<le> 2 + 1
   \<and> invocations ''CallScoringService'' (snd (run E input)) \<le> 3 + 1
   \<and> invocations ''PersistScoredApplication'' (snd (run E input)) \<le> 3 + 1"
  using run_invocations [of E input]
  by (simp add: CleanAndFeatureEngineer_task_def CallScoringService_task_def
      PersistScoredApplication_task_def error_matches_def)

theorem retry_policies_witness:
  "invocations ''CleanAndFeatureEngineer'' (snd (run env_invalid example_input)) \<le> 2 + 1
   \<and> invocations ''CallScoringService'' (snd (run env_score_down example_input)) \<le> 3 + 1"
  using retry_policies [of env_invalid example_input]
    retry_policies [of env_score_down example_input]
  by simp

text \<open>
  C6 as stated fails: with a cleaning function that keeps answering DataValidationError
  the cleaning stage makes 3 attempts, not at most 2.
\<close>

theorem retry_policies_counterexample:
  "invocations ''CleanAndFeatureEngineer'' (snd (run env_invalid example_input)) = 3"
  by code_simp

text \<open>
  C7: for a retrier with an interval of 5 seconds, a backoff rate of 2 and full jitter, as
  the scoring stage has, the delay before the \<open>k\<close>-th retry (\<open>k \<ge> 1\<close>), for any draw
  \<open>u\<close> between 0 and 1, is between 0 and \<open>5 * 2^(k-1)\<close> seconds.
\<close>

theorem full_jitter_delay:
  assumes "IntervalSeconds r = 5" and "BackoffRate r = 2" and "JitterStrategy r = FULL"
    and "1 \<le> k" and "0 \<le> u" and "u \<le> 1"
  shows "0 \<le> retry_delay r k u \<and> retry_delay r k u \<le> 5 * 2 ^ (k - 1)"
proof -
  have "retry_delay r k u = u * (5 * 2 ^ (k - 1))"
    using assms(1-3) by (simp add: retry_delay_def)
  moreover have "(0::rat) \<le> 5 * 2 ^ (k - 1)" by simp
  ultimately show ?thesis
    using assms(5,6) by (simp add: mult_left_le_one_le)
qed

theorem full_jitter_delay_witness:
  "IntervalSeconds (hd (Retry CallScoringService_task)) = 5
   \<and> BackoffRate (hd (Retry CallScoringService_task)) = 2
   \<and> JitterStrategy (hd (Retry CallScoringService_task)) = FULL
   \<and> (1::nat) \<le> 3 \<and> (0::rat) \<le> 1 / 2 \<and> (1 / 2 :: rat) \<le> 1
   \<and> 0 \<le> retry_delay (hd (Retry CallScoringService_task)) 3 (1 / 2)
   \<and> retry_delay (hd (Retry CallScoringService_task)) 3 (1 / 2) \<le> 5 * 2 ^ (3 - 1)"
proof -
  have h: "IntervalSeconds (hd (Retry CallScoringService_task)) = 5"
    "BackoffRate (hd (Retry CallScoringService_task)) = 2"
    "JitterStrategy (hd (Retry CallScoringService_task)) = FULL"
    by (simp_all add: CallScoringService_task_def)
  from full_jitter_delay [OF h, of 3 "1 / 2"] h show ?thesis by simp
qed

section \<open>Errors that are not retried\<close>

text \<open>
  C8: in every execution, when an invocation of a stage's function raises an error (or
  times out) whose name is in none of the stage's retriers, the stage makes no further
  invocation, the error is caught, the one message sent to the failure queue carries it,
  and the execution fails with the error's cause.
\<close>

theorem unclassified_error_fatal:
  assumes "run E input = (out, tr)"
    and "(s, t, fn) \<in> {(''CleanAndFeatureEngineer'', CleanAndFeatureEngineer_task, clean E),
                        (''CallScoringService'', CallScoringService_task, score E),
                        (''PersistScoredApplication'', PersistScoredApplication_task, persist E)}"
    and "Invoked s n inp \<in> set tr"
    and "invoke t (fn n inp) = Raised e c"
    and "\<forall>r \<in> set (Retry t). e \<notin> set (ErrorEquals r)"
  shows "(\<forall>i. Invoked s (Suc n) i \<notin> set tr)
       \<and> Caught s e \<in> set tr
       \<and> out = Failed ''ApplicationProcessingFailedError'' c
       \<and> dead_letters tr = [dlq_message (JObj input) (error_output e c)]"
proof -
  have "is_invocation s (Invoked s n inp)" by simp
  with assms(3) have "filter (is_invocation s) tr \<noteq> []"
    unfolding filter_empty_conv by blast
  then have "0 < invocations s tr"
    by (simp add: invocations_def)
  from stage_summary [OF assms(1,2) this] obtain inp' r evs where
    loop: "run_loop t s fn E inp' = (r, evs)"
    and inv: "filter (is_invocation s) tr = filter (is_invocation s) evs"
    and err: "\<And>e c. r = Raised e c \<Longrightarrow>
               out = Failed ''ApplicationProcessingFailedError'' c
             \<and> Caught s e \<in> set tr
             \<and> dead_letters tr = [dlq_message (JObj input) (error_output e c)]"
    by blast
  from assms(3) inv have mem: "Invoked s n inp \<in> set evs"
    by (metis filter_invocation_mem)
  with run_loop_events [OF loop] have "inp = inp'"
    by (auto dest: loop_invoked)
  from assms(2) have "t \<in> {CleanAndFeatureEngineer_task, CallScoringService_task,
      PersistScoredApplication_task}"
    by auto
  then have "find_retrier (Retry t) e = None"
    using assms(5) by (rule no_retrier)
  with run_loop_fatal_at [OF loop mem] assms(4) \<open>inp = inp'\<close>
  have r: "r = Raised e c" and no: "\<And>i'. Invoked s (Suc n) i' \<notin> set evs"
    by auto
  have "Invoked s (Suc n) i \<notin> set tr" for i
    using no [of i] inv by (metis filter_invocation_mem)
  with err [OF r] show ?thesis by simp
qed

theorem unclassified_error_fatal_witness:
  "Invoked ''CallScoringService'' 0 (JObj [(''dti'', JNum (1 / 5))])
     \<in> set (snd (run env_score_broken example_input))
   \<and> invoke CallScoringService_task (score env_score_broken 0 (JObj [(''dti'', JNum (1 / 5))]))
       = Raised ''KeyError'' ''no such feature''
   \<and> ''KeyError'' \<notin> set (concat (map ErrorEquals (Retry CallScoringService_task)))
   \<and> (\<forall>i. Invoked ''CallScoringService'' (Suc 0) i \<notin> set (snd (run env_score_broken example_input)))
   \<and> Caught ''CallScoringService'' ''KeyError'' \<in> set (snd (run env_score_broken example_input))
   \<and> fst (run env_score_broken example_input) =
       Failed ''ApplicationProcessingFailedError'' ''no such feature''
   \<and> dead_letters (snd (run env_score_broken example_input)) =
       [dlq_message (JObj example_input) (error_output ''KeyError'' ''no such feature'')]"
proof -
  have mem: "Invoked ''CallScoringService'' 0 (JObj [(''dti'', JNum (1 / 5))])
     \<in> set (snd (run env_score_broken example_input))"
    by code_simp
  have err: "invoke CallScoringService_task
      (score env_score_broken 0 (JObj [(''dti'', JNum (1 / 5))]))
       = Raised ''KeyError'' ''no such feature''"
    by (simp add: invoke_def env_score_broken_def CallScoringService_task_def)
  have unc: "\<forall>r \<in> set (Retry CallScoringService_task). ''KeyError'' \<notin> set (ErrorEquals r)"
    by (simp add: CallScoringService_task_def lambda_errors_def)
  have pair: "run env_score_broken example_input =
      (fst (run env_score_broken example_input), snd (run env_score_broken example_input))"
    by simp
  have st: "(''CallScoringService'', CallScoringService_task, score env_score_broken) \<in>
      {(''CleanAndFeatureEngineer'', CleanAndFeatureEngineer_task, clean env_score_broken),
       (''CallScoringService'', CallScoringService_task, score env_score_broken),
       (''PersistScoredApplication'', PersistScoredApplication_task, persist env_score_broken)}"
    by simp
  from unclassified_error_fatal [OF pair st mem err unc] mem err unc show ?thesis
    by auto
qed

section \<open>Errors that are always retried\<close>

text \<open>
  C4, as the document has it: a stage whose retrier has MaxAttempts 3 (the scoring stage
  and the persisting stage), once attempted with a function that always raises an error
  its retrier names, invokes the function exactly 3 + 1 times, the first attempt and 3
  retries, and the execution then fails.
\<close>

theorem always_retryable_invocations:
  assumes "run E input = (out, tr)"
    and "(s, t, fn) \<in> {(''CallScoringService'', CallScoringService_task, score E),
                        (''PersistScoredApplication'', PersistScoredApplication_task, persist E)}"
    and "0 < invocations s tr"
    and "\<forall>n inp. \<exists>e c. invoke t (fn n inp) = Raised e c \<and> e \<in> set (ErrorEquals (hd (Retry t)))"
  shows "MaxAttempts (hd (Retry t)) = 3
       \<and> invocations s tr = 3 + 1
       \<and> (\<exists>c. out = Failed ''ApplicationProcessingFailedError'' c)"
proof -
  from assms(2) have mem: "(s, t, fn) \<in>
      {(''CleanAndFeatureEngineer'', CleanAndFeatureEngineer_task, clean E),
       (''CallScoringService'', CallScoringService_task, score E),
       (''PersistScoredApplication'', PersistScoredApplication_task, persist E)}"
    by auto
  from stage_summary [OF assms(1) mem assms(3)] obtain inp r evs where
    loop: "run_loop t s fn E inp = (r, evs)"
    and inv: "filter (is_invocation s) tr = filter (is_invocation s) evs"
    and err: "\<And>e c. r = Raised e c \<Longrightarrow>
               out = Failed ''ApplicationProcessingFailedError'' c
             \<and> Caught s e \<in> set tr
             \<and> dead_letters tr = [dlq_message (JObj input) (error_output e c)]"
    by blast
  from assms(2) have cfg: "Retry t = [hd (Retry t)]" "MaxAttempts (hd (Retry t)) = 3"
    by (auto simp: CallScoringService_task_def PersistScoredApplication_task_def)
  from assms(2) have left: "map MaxAttempts (Retry t) = [3]"
    by (auto simp: CallScoringService_task_def PersistScoredApplication_task_def)
  have always: "\<exists>e c. invoke t (fn n inp) = Raised e c
      \<and> error_matches (ErrorEquals (hd (Retry t))) e" for n
    using assms(4) unfolding error_matches_def by blast
  from attempts_always_retryable [where t=t and r="hd (Retry t)" and fn=fn and inp=inp
      and s=s and jit="jitter E s" and k=3 and n=0, OF cfg(1) always] loop left
  have "invocations s evs = 4" and "\<exists>e c. r = Raised e c"
    by (auto simp: run_loop_def)
  with err inv cfg(2) show ?thesis
    by (auto simp: invocations_def)
qed

theorem always_retryable_invocations_witness:
  "0 < invocations ''CallScoringService'' (snd (run env_score_down example_input))
   \<and> (\<forall>n inp. \<exists>e c. invoke CallScoringService_task (score env_score_down n inp) = Raised e c
         \<and> e \<in> set (ErrorEquals (hd (Retry CallScoringService_task))))
   \<and> invocations ''CallScoringService'' (snd (run env_score_down example_input)) = 3 + 1
   \<and> (\<exists>c. fst (run env_score_down example_input) =
           Failed ''ApplicationProcessingFailedError'' c)"
proof -
  have pos: "0 < invocations ''CallScoringService'' (snd (run env_score_down example_input))"
    by code_simp
  have always: "\<forall>n inp. \<exists>e c. invoke CallScoringService_task (score env_score_down n inp)
         = Raised e c \<and> e \<in> set (ErrorEquals (hd (Retry CallScoringService_task)))"
    by (simp add: invoke_def env_score_down_def CallScoringService_task_def)
  have pair: "run env_score_down example_input =
      (fst (run env_score_down example_input), snd (run env_score_down example_input))"
    by simp
  have st: "(''CallScoringService'', CallScoringService_task, score env_score_down) \<in>
      {(''CallScoringService'', CallScoringService_task, score env_score_down),
       (''PersistScoredApplication'', PersistScoredApplication_task, persist env_score_down)}"
    by simp
  from always_retryable_invocations [OF pair st pos always] pos always show ?thesis
    by simp
qed

text \<open>
  C4 as stated fails: the scoring stage has MaxAttempts 3, and with a scoring service that
  always raises ScoringServiceCallFailed, an error the stage retries, the service is
  invoked 4 times, not 3, before the execution fails.
\<close>

theorem always_retryable_invocations_counterexample:
  "MaxAttempts (hd (Retry CallScoringService_task)) = 3
   \<and> (\<forall>n inp. invoke CallScoringService_task (score env_score_down n inp)
        = Raised ''ScoringServiceCallFailed'' ''service unavailable'')
   \<and> ''ScoringServiceCallFailed'' \<in> set (ErrorEquals (hd (Retry CallScoringService_task)))
   \<and> invocations ''CallScoringService'' (snd (run env_score_down example_input)) = 4
   \<and> fst (run env_score_down example_input) =
       Failed ''ApplicationProcessingFailedError'' ''service unavailable''"
proof -
  have "invocations ''CallScoringService'' (snd (run env_score_down example_input)) = 4"
    by code_simp
  moreover have "fst (run env_score_down example_input) =
       Failed ''ApplicationProcessingFailedError'' ''service unavailable''"
    by code_simp
  ultimately show ?thesis
    by (simp add: CallScoringService_task_def env_score_down_def invoke_def)
qed

section \<open>Persisting twice\<close>

lemma application_id_make_row [simp]: "application_id (make_row a f s ts) = a"
  by (simp add: make_row_def)

lemma primary_key_rows:
  "primary_key tbl \<Longrightarrow> length (rows_of a tbl) \<le> 1"
proof (induction tbl)
  case Nil
  then show ?case by (simp add: rows_of_def)
next
  case (Cons r tbl)
  from Cons.prems have "application_id r \<notin> application_id ` set tbl"
    by (simp add: primary_key_def)
  then have "rows_of (application_id r) tbl = []"
    unfolding rows_of_def filter_empty_conv by (metis imageI)
  with Cons show ?case
    by (auto simp: primary_key_def rows_of_def)
qed

lemma rows_of_replace:
  "rows_of a (map (\<lambda>r. if application_id r = a then make_row a f s ts else r) tbl) =
     map (\<lambda>r. make_row a f s ts) (rows_of a tbl)"
  by (induction tbl) (auto simp: rows_of_def)

lemma ids_replace:
  "map application_id (map (\<lambda>r. if application_id r = a then make_row a f s ts else r) tbl) =
     map application_id tbl"
  by (induction tbl) auto

lemma rows_of_persist:
  assumes "primary_key tbl"
  shows "rows_of a (persist_row a f s ts tbl) = [make_row a f s ts]"
proof (cases "rows_of a tbl = []")
  case True
  then show ?thesis
    by (simp add: persist_row_def insert_row_def) (simp add: rows_of_def)
next
  case False
  with primary_key_rows [OF assms, of a] obtain r where "rows_of a tbl = [r]"
    by (cases "rows_of a tbl") auto
  with False show ?thesis
    by (simp add: persist_row_def insert_row_def rows_of_replace)
qed

lemma primary_key_persist:
  assumes "primary_key tbl"
  shows "primary_key (persist_row a f s ts tbl)"
proof (cases "rows_of a tbl = []")
  case True
  with assms show ?thesis
    by (auto simp: persist_row_def insert_row_def primary_key_def rows_of_def filter_empty_conv)
next
  case False
  with assms show ?thesis
    by (simp add: persist_row_def insert_row_def primary_key_def ids_replace del: map_map)
qed

lemma replace_same:
  "rows_of a tbl = [make_row a f s ts] \<Longrightarrow>
   map (\<lambda>r. if application_id r = a then make_row a f s ts else r) tbl = tbl"
proof (induction tbl)
  case Nil
  then show ?case by simp
next
  case (Cons r tbl)
  show ?case
  proof (cases "application_id r = a")
    case True
    with Cons.prems have r: "r = make_row a f s ts" and "rows_of a tbl = []"
      by (simp_all add: rows_of_def)
    then have "map (\<lambda>r. if application_id r = a then make_row a f s ts else r) tbl = tbl"
      by (auto simp: rows_of_def filter_empty_conv intro: map_idI)
    with r show ?thesis by simp
  next
    case False
    with Cons show ?thesis by (simp add: rows_of_def)
  qed
qed

text \<open>
  C9: on a table that respects its primary key, persisting an application and persisting
  it again (the retried write may carry another timestamp) leaves exactly one row with
  that \<^verbatim>\<open>application_id\<close>: the second write adds no row, and with the same timestamp it
  changes nothing. A plain INSERT in its place would be refused by the primary key.
\<close>

theorem persist_twice:
  assumes "primary_key tbl"
  shows "length (rows_of a (persist_row a f s ts' (persist_row a f s ts tbl))) = 1
       \<and> length (persist_row a f s ts' (persist_row a f s ts tbl))
           = length (persist_row a f s ts tbl)
       \<and> persist_row a f s ts (persist_row a f s ts tbl) = persist_row a f s ts tbl
       \<and> insert_row (make_row a f s ts') (persist_row a f s ts tbl) = Inl UniqueViolation
       \<and> primary_key (persist_row a f s ts' (persist_row a f s ts tbl))"
proof -
  let ?t1 = "persist_row a f s ts tbl"
  have pk1: "primary_key ?t1"
    using assms by (rule primary_key_persist)
  have rows1: "rows_of a ?t1 = [make_row a f s ts]"
    using assms by (rule rows_of_persist)
  have "length (rows_of a (persist_row a f s ts' ?t1)) = 1"
    using rows_of_persist [OF pk1, of a f s ts'] by simp
  moreover have "length (persist_row a f s ts' ?t1) = length ?t1"
    using rows1 by (simp add: persist_row_def [of a f s ts' ?t1] insert_row_def)
  moreover have "persist_row a f s ts ?t1 = ?t1"
    using rows1 by (simp add: persist_row_def [of a f s ts ?t1] insert_row_def replace_same)
  moreover have "insert_row (make_row a f s ts') ?t1 = Inl UniqueViolation"
    using rows1 by (simp add: insert_row_def)
  moreover have "primary_key (persist_row a f s ts' ?t1)"
    using pk1 by (rule primary_key_persist)
  ultimately show ?thesis by simp
qed

theorem persist_twice_witness:
  "primary_key []
   \<and> length (rows_of ''a-1'' (persist_row ''a-1'' example_features (1 / 4) 20
               (persist_row ''a-1'' example_features (1 / 4) 10 []))) = 1
   \<and> persist_row ''a-1'' example_features (1 / 4) 10
        (persist_row ''a-1'' example_features (1 / 4) 10 [])
       = persist_row ''a-1'' example_features (1 / 4) 10 []"
proof -
  have pk: "primary_key []"
    by (simp add: primary_key_def)
  from persist_twice [OF pk, of "''a-1''" example_features "1 / 4" 20 10] pk show ?thesis
    by simp
qed

section \<open>One execution for each natural key\<close>

lemma dispatch_live:
  assumes "entries (Ledger D) k = Some r"
    and "\<forall>t \<in> set (delivery_time key k ev). t < expiresAt r"
  shows "executions_of k (dispatch ttl key W D ev) = executions_of k D
       \<and> (\<exists>r'. entries (Ledger (dispatch ttl key W D ev)) k = Some r'
              \<and> expiresAt r' = expiresAt r)"
proof (cases ev)
  case (Delivered now m)
  show ?thesis
  proof (cases "key (payload m) = k")
    case True
    with assms Delivered show ?thesis
      by (simp add: beginOrReject_def)
  next
    case False
    with assms Delivered show ?thesis
      by (auto simp: beginOrReject_def admit_def executions_of_def
          split: option.splits)
  qed
next
  case (Terminated a)
  with assms show ?thesis
    by (simp add: markCompleted_def executions_of_def)
qed

lemma dispatch_all_live:
  assumes "entries (Ledger D) k = Some r"
    and "\<forall>t \<in> set (deliveries key k evs). t < expiresAt r"
  shows "executions_of k (foldl (dispatch ttl key W) D evs) = executions_of k D"
  using assms
proof (induction evs arbitrary: D r)
  case Nil
  then show ?case by simp
next
  case (Cons ev evs)
  from Cons.prems have now: "\<forall>t \<in> set (delivery_time key k ev). t < expiresAt r"
    and later: "\<forall>t \<in> set (deliveries key k evs). t < expiresAt r"
    by (simp_all add: deliveries_def)
  from dispatch_live [OF Cons.prems(1) now, of ttl W] obtain r' where
    same: "executions_of k (dispatch ttl key W D ev) = executions_of k D"
    and live: "entries (Ledger (dispatch ttl key W D ev)) k = Some r'"
    and "expiresAt r' = expiresAt r"
    by blast
  with later have "\<forall>t \<in> set (deliveries key k evs). t < expiresAt r'"
    by simp
  from Cons.IH [OF live this] same show ?case by simp
qed

lemma dispatch_all_first:
  assumes "entries (Ledger D) k = None"
    and "deliveries key k evs = t0 # ts"
    and "\<forall>t \<in> set ts. t < t0 + ttl"
  shows "\<exists>w. executions_of k (foldl (dispatch ttl key W) D evs) = executions_of k D @ [w]"
  using assms
proof (induction evs arbitrary: D)
  case Nil
  then show ?case by (simp add: deliveries_def)
next
  case (Cons ev evs)
  show ?case
  proof (cases ev)
    case (Delivered now m)
    show ?thesis
    proof (cases "key (payload m) = k")
      case True
      with Cons.prems(2) Delivered have t0: "t0 = now" and ts: "deliveries key k evs = ts"
        by (simp_all add: deliveries_def)
      let ?D = "dispatch ttl key W D ev"
      from True Delivered Cons.prems(1)
      have live: "entries (Ledger ?D) k =
          Some \<lparr>applicationId = minted (Ledger D), state = IN_PROGRESS, expiresAt = now + ttl\<rparr>"
        and ex: "executions_of k ?D = executions_of k D @
          [\<lparr>executionId = minted (Ledger D), naturalKey = k,
            result = run (W (minted (Ledger D))) (execution_input (minted (Ledger D)) m)\<rparr>]"
        by (simp_all add: beginOrReject_def admit_def executions_of_def)
      from Cons.prems(3) t0 ts
      have "\<forall>t \<in> set (deliveries key k evs).
          t < expiresAt \<lparr>applicationId = minted (Ledger D), state = IN_PROGRESS,
                         expiresAt = now + ttl\<rparr>"
        by simp
      from dispatch_all_live [OF live this, of ttl W] ex show ?thesis by simp
    next
      case False
      with Delivered Cons.prems(1)
      have none: "entries (Ledger (dispatch ttl key W D ev)) k = None"
        and same: "executions_of k (dispatch ttl key W D ev) = executions_of k D"
        by (auto simp: beginOrReject_def admit_def executions_of_def split: option.splits)
      from False Delivered Cons.prems(2) have "deliveries key k evs = t0 # ts"
        by (simp add: deliveries_def)
      from Cons.IH [OF none this Cons.prems(3)] same show ?thesis by simp
    qed
  next
    case (Terminated a)
    with Cons.prems(1)
    have none: "entries (Ledger (dispatch ttl key W D ev)) k = None"
      and same: "executions_of k (dispatch ttl key W D ev) = executions_of k D"
      by (simp_all add: markCompleted_def executions_of_def)
    from Terminated Cons.prems(2) have "deliveries key k evs = t0 # ts"
      by (simp add: deliveries_def)
    from Cons.IH [OF none this Cons.prems(3)] same show ?thesis by simp
  qed
qed

lemma dlq_completed_count:
  "length (filter (\<lambda>e. e = Completed ''SendToDLQ'') (dlq_events E x e c)) \<le> 1"
  by (simp add: dlq_events_def split: reply.splits)

lemma loop_completed_count [simp]:
  "list_all (loop_event s inp) evs \<Longrightarrow> filter (\<lambda>e. e = Completed a) evs = []"
  by (induction evs) (auto elim: loop_event.elims)

lemma run_records_le:
  "persisted_records (run E input) + dead_letter_records (run E input) \<le> 1"
proof (cases rule: run_cases [of E input])
  case (clean_failed e c cev)
  note ev = run_loop_events [OF clean_failed(1)]
  from clean_failed(2) ev dlq_completed_count [of E "JObj input" e c] show ?thesis
    by (simp add: persisted_records_def dead_letter_records_def)
next
  case (score_unreadable st cev)
  note ev = run_loop_events [OF score_unreadable(1)]
  from score_unreadable(3) ev show ?thesis
    by (simp add: persisted_records_def dead_letter_records_def)
next
  case (score_failed f kvs cev e c sev)
  note ev = run_loop_events [OF score_failed(1)] run_loop_events [OF score_failed(2)]
  from score_failed(3) ev dlq_completed_count [of E "JObj input" e c] show ?thesis
    by (simp add: persisted_records_def dead_letter_records_def)
next
  case (persist_failed f kvs cev v sev e c pev)
  note ev = run_loop_events [OF persist_failed(1)] run_loop_events [OF persist_failed(2)]
    run_loop_events [OF persist_failed(3)]
  from persist_failed(4) ev dlq_completed_count [of E "JObj input" e c] show ?thesis
    by (simp add: persisted_records_def dead_letter_records_def)
next
  case (succeeded f kvs cev v sev out' pev)
  note ev = run_loop_events [OF succeeded(1)] run_loop_events [OF succeeded(2)]
    run_loop_events [OF succeeded(3)]
  from succeeded(4) ev show ?thesis
    by (simp add: persisted_records_def dead_letter_records_def)
qed

lemma dispatch_invariant:
  assumes "map executionId (started D) = [0..<minted (Ledger D)]"
    and "\<forall>w \<in> set (started D). persisted_records (result w) + dead_letter_records (result w) \<le> 1"
  shows "map executionId (started (dispatch ttl key W D ev))
           = [0..<minted (Ledger (dispatch ttl key W D ev))]
       \<and> (\<forall>w \<in> set (started (dispatch ttl key W D ev)).
             persisted_records (result w) + dead_letter_records (result w) \<le> 1)"
proof (cases ev)
  case (Delivered now m)
  with assms show ?thesis
    by (auto simp: beginOrReject_def admit_def run_records_le [unfolded One_nat_def]
        split: option.splits)
next
  case (Terminated a)
  with assms show ?thesis
    by (simp add: markCompleted_def)
qed

lemma dispatch_all_invariant:
  assumes "map executionId (started D) = [0..<minted (Ledger D)]"
    and "\<forall>w \<in> set (started D). persisted_records (result w) + dead_letter_records (result w) \<le> 1"
  shows "map executionId (started (foldl (dispatch ttl key W) D evs))
           = [0..<minted (Ledger (foldl (dispatch ttl key W) D evs))]
       \<and> (\<forall>w \<in> set (started (foldl (dispatch ttl key W) D evs)).
             persisted_records (result w) + dead_letter_records (result w) \<le> 1)"
  using assms
proof (induction evs arbitrary: D)
  case Nil
  then show ?case by simp
next
  case (Cons ev evs)
  from dispatch_invariant [OF Cons.prems, of ttl key W ev]
  have "map executionId (started (dispatch ttl key W D ev))
           = [0..<minted (Ledger (dispatch ttl key W D ev))]"
    and "\<forall>w \<in> set (started (dispatch ttl key W D ev)).
             persisted_records (result w) + dead_letter_records (result w) \<le> 1"
    by blast+
  from Cons.IH [OF this] show ?case by simp
qed

text \<open>
  C2: when the messages of one natural key are delivered one or more times, all of them
  before the ledger entry made at the first delivery expires, exactly one execution is
  started for the key, whatever else is delivered or terminates in between. That
  execution leaves at most one record, persisted or dead-lettered. The ApplicationIds
  minted are those of the executions started, each minted once, so the key has one.
\<close>

theorem one_execution_per_key:
  assumes "deliveries key k evs = t0 # ts" and "\<forall>t \<in> set ts. t < t0 + ttl"
  shows "(\<exists>w. executions_of k (dispatch_all ttl key W evs) = [w]
            \<and> persisted_records (result w) + dead_letter_records (result w) \<le> 1)
       \<and> map executionId (started (dispatch_all ttl key W evs))
           = [0..<minted (Ledger (dispatch_all ttl key W evs))]"
proof -
  have "entries (Ledger dispatcher_start) k = None"
    by (simp add: dispatcher_start_def)
  from dispatch_all_first [OF this assms, of W] obtain w where
    w: "executions_of k (dispatch_all ttl key W evs) = [w]"
    by (auto simp: dispatch_all_def executions_of_def dispatcher_start_def)
  have inv: "map executionId (started (dispatch_all ttl key W evs))
           = [0..<minted (Ledger (dispatch_all ttl key W evs))]"
    "\<forall>w \<in> set (started (dispatch_all ttl key W evs)).
             persisted_records (result w) + dead_letter_records (result w) \<le> 1"
    using dispatch_all_invariant [of dispatcher_start ttl key W evs]
    by (simp_all add: dispatch_all_def dispatcher_start_def)
  from w have "w \<in> set (started (dispatch_all ttl key W evs))"
    by (metis executions_of_def filter_is_subset list.set_intros(1) subsetD)
  with inv w show ?thesis by simp
qed

theorem one_execution_per_key_witness:
  "deliveries example_key ''A1'' example_deliveries = 0 # [10, 20]
   \<and> (10::nat) < 0 + 3600 \<and> (20::nat) < 0 + 3600
   \<and> (\<exists>w. executions_of ''A1'' (dispatch_all 3600 example_key (\<lambda>a. env_ok) example_deliveries) = [w]
         \<and> persisted_records (result w) + dead_letter_records (result w) \<le> 1)
   \<and> map executionId (started (dispatch_all 3600 example_key (\<lambda>a. env_ok) example_deliveries))
       = [0..<minted (Ledger (dispatch_all 3600 example_key (\<lambda>a. env_ok) example_deliveries))]"
proof -
  have d: "deliveries example_key ''A1'' example_deliveries = 0 # [10, 20]"
    by code_simp
  have t: "\<forall>t \<in> set [10, 20 :: nat]. t < 0 + 3600"
    by simp
  from one_execution_per_key [OF d t, of "\<lambda>a. env_ok"] d show ?thesis
    by simp
qed

end
